theory Spec2Isabelle
  imports Main
begin

section \<open>Data model\<close>

text \<open>
  An operation of the dataflow graph is identified by its position in the graph's list of
  operations; a tensor by its producing operation and the output slot it occupies.
\<close>

type_synonym op = nat
type_synonym tensor = "op \<times> nat"

text \<open>The exceptions the Python code can raise.\<close>

datatype error = ValueError | TypeError | IndexError

text \<open>
  The topological order index of module \<open>lms.topos\<close>: \<open>get_order\<close> is the rank of an
  operation (\<open>None\<close> when it has none), \<open>get_ops\<close> the operations of a rank and
  \<open>topo_size\<close> the number of ranks. The index is built once per run and only read afterwards,
  so the functions below take it as a parameter.
\<close>

record TOPOS =
  get_order :: "op \<Rightarrow> int option"
  get_ops :: "int \<Rightarrow> op list"
  topo_size :: int

text \<open>
  A node of the graph (\<open>tf.Operation\<close>): its name and type tag, the tensors it reads, the
  shape rank (\<open>shape.ndims\<close>, \<open>None\<close> when unknown) of each tensor it produces and its
  control predecessors. The graph is the list of its operations; operations are only ever
  added, at the end.
\<close>

record operation =
  op_name :: string
  op_type :: string
  inputs :: "tensor list"
  outputs :: "nat option list"
  control_inputs :: "op list"

type_synonym graph = "operation list"

section \<open>The graph library\<close>

text \<open>
  The functions of \<open>tensorflow.contrib.graph_editor\<close> (\<open>ge\<close>, \<open>util\<close>) and of
  \<open>array_ops\<close> that the program calls, over the list model of the graph.
\<close>

definition make_list_of_op :: "graph \<Rightarrow> op list" where
  "make_list_of_op g = [0..<length g]"

definition ndims :: "graph \<Rightarrow> tensor \<Rightarrow> nat option" where
  "ndims g t = outputs (g ! fst t) ! snd t"

definition op_outputs :: "graph \<Rightarrow> op \<Rightarrow> tensor list" where
  "op_outputs g a = map (Pair a) [0..<length (outputs (g ! a))]"

definition consumers :: "graph \<Rightarrow> tensor \<Rightarrow> op list" where
  "consumers g t = filter (\<lambda>a. t \<in> set (inputs (g ! a))) [0..<length g]"

text \<open>\<open>for x in lb: if x not in la: la.append(x)\<close>\<close>

fun concatenate_unique :: "'a list \<Rightarrow> 'a list \<Rightarrow> 'a list" where
  "concatenate_unique la [] = la"
| "concatenate_unique la (x # lb) =
     (if x \<in> set la then concatenate_unique la lb else concatenate_unique (la @ [x]) lb)"

definition get_consuming_ops :: "graph \<Rightarrow> tensor list \<Rightarrow> op list" where
  "get_consuming_ops g ts = fold (\<lambda>t acc. concatenate_unique acc (consumers g t)) ts []"

definition get_generating_ops :: "tensor list \<Rightarrow> op list" where
  "get_generating_ops ts = concatenate_unique [] (map fst ts)"

text \<open>
  \<open>ge.add_control_inputs(op, cops)\<close> raises \<open>ValueError\<close> when one of \<open>cops\<close> is a
  control input of \<open>op\<close> already, and appends \<open>cops\<close> to the control inputs of \<open>op\<close>
  otherwise: afterwards \<open>op\<close> waits for every operation of \<open>cops\<close>.
\<close>

definition ge_add_control_inputs :: "graph \<Rightarrow> op \<Rightarrow> op list \<Rightarrow> error + graph" where
  "ge_add_control_inputs g a cops =
     (if \<exists>c \<in> set cops. c \<in> set (control_inputs (g ! a)) then Inl ValueError
      else Inr (g[a := (g ! a)\<lparr>control_inputs := control_inputs (g ! a) @ cops\<rparr>]))"

text \<open>
  \<open>ge.get_forward_walk_ops(op)\<close>: the operations reachable from \<open>op\<close> along data edges,
  \<open>op\<close> included. \<open>forward_step\<close> adds the consumers of everything seen so far, and the walk
  repeats it until nothing new turns up.
\<close>

definition forward_step :: "graph \<Rightarrow> op list \<Rightarrow> op list" where
  "forward_step g seen =
     fold (\<lambda>a acc. concatenate_unique acc (get_consuming_ops g (op_outputs g a))) seen seen"

function forward_walk :: "graph \<Rightarrow> op list \<Rightarrow> op list" where
  "forward_walk g seen =
     (if set (forward_step g seen) \<subseteq> set seen then seen
      else forward_walk g (forward_step g seen))"
  by pat_completeness auto

lemma set_concatenate_unique: "set (concatenate_unique la lb) = set la \<union> set lb"
  by (induction la lb rule: concatenate_unique.induct) auto

lemma distinct_concatenate_unique: "distinct la \<Longrightarrow> distinct (concatenate_unique la lb)"
  by (induction la lb rule: concatenate_unique.induct) auto

lemma set_fold_concatenate_unique:
  "set (fold (\<lambda>t acc. concatenate_unique acc (f t)) ts acc0) = set acc0 \<union> (\<Union>t\<in>set ts. set (f t))"
  by (induction ts arbitrary: acc0) (auto simp: set_concatenate_unique)

lemma distinct_fold_concatenate_unique:
  "distinct acc0 \<Longrightarrow> distinct (fold (\<lambda>t acc. concatenate_unique acc (f t)) ts acc0)"
  by (induction ts arbitrary: acc0) (auto simp: distinct_concatenate_unique)

lemma set_get_consuming_ops:
  "set (get_consuming_ops g ts) = (\<Union>t\<in>set ts. set (consumers g t))"
  by (simp add: get_consuming_ops_def set_fold_concatenate_unique)

lemma set_consumers: "set (consumers g t) = {a. a < length g \<and> t \<in> set (inputs (g ! a))}"
  by (auto simp: consumers_def)

lemma get_consuming_ops_less: "a \<in> set (get_consuming_ops g ts) \<Longrightarrow> a < length g"
  by (auto simp: set_get_consuming_ops set_consumers)

lemma set_forward_step:
  "set (forward_step g seen) =
     set seen \<union> (\<Union>a\<in>set seen. set (get_consuming_ops g (op_outputs g a)))"
  by (simp add: forward_step_def set_fold_concatenate_unique)

termination forward_walk
proof (relation "measure (\<lambda>(g, seen). card ({..<length g} - set seen))")
  show "wf (measure (\<lambda>(g, seen). card ({..<length g} - set seen)))" by simp
next
  fix g :: graph and seen :: "op list"
  assume "\<not> set (forward_step g seen) \<subseteq> set seen"
  then obtain b where b: "b \<in> set (forward_step g seen)" "b \<notin> set seen" by blast
  then have blt: "b < length g"
    by (auto simp: set_forward_step dest: get_consuming_ops_less)
  have sub: "set seen \<subseteq> set (forward_step g seen)" by (auto simp: set_forward_step)
  have "{..<length g} - set (forward_step g seen) \<subset> {..<length g} - set seen"
    using b blt sub by auto
  then have "card ({..<length g} - set (forward_step g seen)) < card ({..<length g} - set seen)"
    by (intro psubset_card_mono) auto
  then show "((g, forward_step g seen), (g, seen))
               \<in> measure (\<lambda>(g, seen). card ({..<length g} - set seen))"
    by simp
qed

declare forward_walk.simps [simp del]

definition ge_get_forward_walk_ops :: "graph \<Rightarrow> op \<Rightarrow> op list" where
  "ge_get_forward_walk_ops g a = forward_walk g [a]"

text \<open>
  \<open>array_ops.identity(ts0, name=...)\<close> adds a pass-through operation that reads \<open>ts0\<close> and
  has one output of the same shape; the result is the new graph and the new operation.
\<close>

definition identity :: "graph \<Rightarrow> tensor \<Rightarrow> string \<Rightarrow> graph \<times> op" where
  "identity g ts0 nm =
     (g @ [\<lparr>op_name = nm, op_type = ''Identity'', inputs = [ts0],
            outputs = [ndims g ts0], control_inputs = []\<rparr>],
      length g)"

text \<open>
  The view \<open>ge.sgv(op)\<close> of one operation lists its distinct input tensors and its output
  tensors; \<open>input_index\<close> and \<open>output_index\<close> find a tensor there and raise
  \<open>ValueError\<close> when it is absent.
\<close>

definition sgv_inputs :: "graph \<Rightarrow> op \<Rightarrow> tensor list" where
  "sgv_inputs g a = concatenate_unique [] (inputs (g ! a))"

fun index_of :: "'a list \<Rightarrow> 'a \<Rightarrow> error + nat" where
  "index_of [] t = Inl ValueError"
| "index_of (x # xs) t =
     (if x = t then Inr 0
      else (case index_of xs t of Inl e \<Rightarrow> Inl e | Inr i \<Rightarrow> Inr (Suc i)))"

definition input_index :: "graph \<Rightarrow> op \<Rightarrow> tensor \<Rightarrow> error + nat" where
  "input_index g a t = index_of (sgv_inputs g a) t"

definition output_index :: "graph \<Rightarrow> op \<Rightarrow> tensor \<Rightarrow> error + nat" where
  "output_index g a t = index_of (op_outputs g a) t"

text \<open>
  \<open>ge.connect(sgv0, sgv1)\<close> pairs the outputs of the first view with the inputs of the
  second (the lists must be equally long) and makes the operation of the second view read the
  output wherever it read the paired input.
\<close>

definition reroute :: "op \<Rightarrow> tensor \<times> tensor \<Rightarrow> graph \<Rightarrow> graph" where
  "reroute a p g =
     g[a := (g ! a)\<lparr>inputs := map (\<lambda>t. if t = snd p then fst p else t) (inputs (g ! a))\<rparr>]"

definition ge_connect :: "graph \<Rightarrow> tensor list \<Rightarrow> op \<Rightarrow> tensor list \<Rightarrow> error + graph" where
  "ge_connect g ts0 dest ts1 =
     (if length ts0 \<noteq> length ts1 then Inl ValueError
      else Inr (fold (reroute dest) (zip ts0 ts1) g))"

text \<open>\<open>_connect_ops\<close>: \<open>idx\<close> selects one output of the source or one input of the destination.\<close>

definition remap :: "tensor list \<Rightarrow> nat \<Rightarrow> error + tensor list" where
  "remap ts idx = (if idx < length ts then Inr [ts ! idx] else Inl IndexError)"

definition connect_ops :: "graph \<Rightarrow> op \<Rightarrow> op \<Rightarrow> bool \<Rightarrow> bool \<Rightarrow> nat \<Rightarrow> error + graph" where
  "connect_ops g src_op dest_op remap_inputs remap_outputs idx =
     (case (if remap_outputs then remap (op_outputs g src_op) idx else Inr (op_outputs g src_op)) of
        Inl e \<Rightarrow> Inl e
      | Inr src_ts \<Rightarrow>
          (case (if remap_inputs then remap (sgv_inputs g dest_op) idx
                 else Inr (sgv_inputs g dest_op)) of
             Inl e \<Rightarrow> Inl e
           | Inr dest_ts \<Rightarrow> ge_connect g src_ts dest_op dest_ts))"

text \<open>\<open>_fanins\<close>, \<open>_fanouts\<close> and \<open>_add_control_inputs\<close>.\<close>

definition fanins :: "graph \<Rightarrow> op \<Rightarrow> op list" where
  "fanins g a = get_generating_ops (inputs (g ! a))"

definition fanouts :: "graph \<Rightarrow> op \<Rightarrow> op list" where
  "fanouts g a = get_consuming_ops g (op_outputs g a)"

definition add_control_inputs :: "graph \<Rightarrow> op \<Rightarrow> op \<Rightarrow> error + graph \<times> bool" where
  "add_control_inputs g op1 op2 =
     (if op2 \<in> set (control_inputs (g ! op1)) then Inr (g, False)
      else if op1 \<in> set (control_inputs (g ! op2)) then Inr (g, False)
      else if op2 \<in> set (fanouts g op1) then Inr (g, False)
      else (case ge_add_control_inputs g op1 [op2] of
              Inl e \<Rightarrow> Inl e
            | Inr g' \<Rightarrow> Inr (g', True)))"

section \<open>The \<open>LMS\<close> object\<close>

text \<open>
  What \<open>_log_info\<close> is called with: one constructor for each message of the program,
  carrying the values the message prints. Running times are not part of the model.
\<close>

datatype log_msg =
    Editing_model
  | Graph_has_ops nat
  | Topological_sort_size int
  | Ops_of_order int "(string \<times> string) list"
  | Auto_swapout_threshold
  | Cfg_swapout_threshold int
  | Cfg_swapin_groupby int
  | Cfg_sync_swapout
  | Cfg_sync_swapin
  | Cfg_sync_both
  | Cfg_swapin_ahead "int option"
  | Operation op
  | Operation_order string "int option" string
  | Swap_out string "nat option"
  | Swap_in string "nat option" string "int option"
  | Control_dependency string int string "int option"
  | No_control_dependency string
  | Added_operations nat nat nat
  | Editing_took

text \<open>
  The attributes of the object. \<open>_topo_sort\<close> is passed to the methods as a parameter
  instead, and \<open>_cpu_device\<close>, a placement tag copied onto the new operations, is left out.
  \<open>logged\<close> collects the messages handed to the logger, each with its level.
\<close>

record LMS =
  graph :: "graph option"
  excl_scopes :: "string list"
  incl_scopes :: "string list"
  excl_types :: "string set"
  incl_types :: "string set"
  swapout_threshold :: int
  swapin_groupby :: int
  swapin_ahead :: int
  sync_mode :: int
  excl_ops :: "op set"
  incl_ops :: "op set"
  debug :: bool
  debug_level :: int
  swapout_ops :: "op set"
  swapin_ops :: "op set"
  ops_dict :: "op \<rightharpoonup> op list"
  ops_triples :: "(op \<times> op \<times> op) list"
  logged :: "(nat \<times> log_msg) list"

text \<open>
  The graph the object edits. The methods below \<open>run\<close> are only called once \<open>run\<close>
  has found a graph.
\<close>

definition the_graph :: "LMS \<Rightarrow> graph" where
  "the_graph self = (case graph self of None \<Rightarrow> [] | Some g \<Rightarrow> g)"

text \<open>
  The set literal of \<open>__init__\<close>. No comma separates \<open>'AssignSubVariableOp'\<close> from
  \<open>'ResourceGather'\<close> in the source, and Python joins adjacent string literals.
\<close>

definition unused_types :: "string set" where
  "unused_types =
     {''Const'', ''Identity'',
      ''Placeholder'', ''PlaceholderWithDefault'',
      ''VariableV2'', ''Read'', ''Assign'', ''VarHandleOp'',
      ''VarIsInitializedOp'', ''VariableShape'',
      ''ReadVariableOp'', ''AssignVariableOp'',
      ''AssignAddVariableOp'', ''AssignSubVariableOp'' @ ''ResourceGather'', ''ResourceScatterAdd'',
      ''ResourceScatterSub'', ''ResourceScatterMul'',
      ''ResourceScatterDiv'', ''ResourceScatterMin'',
      ''ResourceScatterMax'', ''ResourceScatterUpdate'',
      ''ResourceScatterNdUpdate'', ''ResourceScatterNdAdd'',
      ''Fill'', ''Range'', ''RandomUniform''}"

definition init ::
  "graph option \<Rightarrow> string list \<Rightarrow> string list \<Rightarrow> string set \<Rightarrow> string set \<Rightarrow>
   int \<Rightarrow> int \<Rightarrow> int \<Rightarrow> int \<Rightarrow> bool \<Rightarrow> int \<Rightarrow> error + LMS" where
  "init graph_arg excl_scopes_arg incl_scopes_arg excl_types_arg incl_types_arg
        swapout_threshold_arg swapin_groupby_arg swapin_ahead_arg sync_mode_arg
        debug_arg debug_level_arg =
     (if sync_mode_arg \<notin> {0, 1, 2, 3} then Inl ValueError
      else Inr \<lparr>graph = graph_arg,
                excl_scopes = excl_scopes_arg,
                incl_scopes = incl_scopes_arg,
                excl_types = excl_types_arg \<union> unused_types,
                incl_types = incl_types_arg,
                swapout_threshold = swapout_threshold_arg,
                swapin_groupby = swapin_groupby_arg,
                swapin_ahead = swapin_ahead_arg,
                sync_mode = sync_mode_arg,
                excl_ops = {},
                incl_ops = {},
                debug = debug_arg,
                debug_level = debug_level_arg,
                swapout_ops = {},
                swapin_ops = {},
                ops_dict = Map.empty,
                ops_triples = [],
                logged = []\<rparr>)"

definition log_info :: "LMS \<Rightarrow> log_msg \<Rightarrow> nat \<Rightarrow> LMS" where
  "log_info self message level =
     (if level = 0 \<or> (debug self \<and> debug_level self \<ge> int level)
      then self\<lparr>logged := logged self @ [(level, message)]\<rparr>
      else self)"

definition print_configuration :: "LMS \<Rightarrow> LMS" where
  "print_configuration self0 =
     (let self1 = log_info self0 (Cfg_swapout_threshold (swapout_threshold self0)) 0;
          self2 = log_info self1 (Cfg_swapin_groupby (swapin_groupby self1)) 0;
          ahead = (if swapin_ahead self2 < 0 then None else Some (swapin_ahead self2))
      in if sync_mode self2 = 1
         then log_info (log_info self2 Cfg_sync_swapout 0) (Cfg_swapin_ahead ahead) 0
         else if sync_mode self2 = 2 then log_info self2 Cfg_sync_swapin 0
         else if sync_mode self2 = 3 then log_info self2 Cfg_sync_both 0
         else if sync_mode self2 = 0 then log_info self2 (Cfg_swapin_ahead ahead) 0
         else self2)"

text \<open>
  \<open>_filter_scopes_and_types\<close>. \<open>ge.get_name_scope_ops\<close> drops one trailing \<open>/\<close> of
  the scope and selects the operations whose name matches \<open>^scope(/.*)?$\<close>: the name is the
  scope, or it begins with the scope followed by \<open>/\<close>. The scope is read as it is written,
  not as a regular expression.
\<close>

fun startswith :: "string \<Rightarrow> string \<Rightarrow> bool" where
  "startswith s [] = True"
| "startswith [] (c # p) = False"
| "startswith (d # s) (c # p) = (d = c \<and> startswith s p)"

definition strip_slash :: "string \<Rightarrow> string" where
  "strip_slash scope = (if scope \<noteq> [] \<and> last scope = CHR ''/'' then butlast scope else scope)"

definition get_name_scope_ops :: "graph \<Rightarrow> op list \<Rightarrow> string \<Rightarrow> op list" where
  "get_name_scope_ops g within_ops scope =
     filter (\<lambda>a. op_name (g ! a) = strip_slash scope
                 \<or> startswith (op_name (g ! a)) (strip_slash scope @ ''/''))
       within_ops"

definition filter_scopes_and_types :: "graph \<Rightarrow> op list \<Rightarrow> string list \<Rightarrow> string set \<Rightarrow> op set" where
  "filter_scopes_and_types g within_ops scopes types =
     (\<Union>scope \<in> set scopes. set (get_name_scope_ops g within_ops scope))
       \<union> set (filter (\<lambda>a. op_type (g ! a) \<in> types) within_ops)"

section \<open>Consumer grouping: \<open>_groupby\<close>\<close>

text \<open>
  \<open>ops_ords = [(op, self._get_order(op)) for op in ops]\<close>. The ranks are sorted,
  subtracted and compared afterwards, which raises \<open>TypeError\<close> as soon as one of
  them is \<open>None\<close>; \<open>orders_of\<close> is \<open>None\<close> in that case.
\<close>

fun orders_of :: "TOPOS \<Rightarrow> op list \<Rightarrow> (op \<times> int) list option" where
  "orders_of topo [] = Some []"
| "orders_of topo (a # as) =
     (case get_order topo a of
        None \<Rightarrow> None
      | Some r \<Rightarrow> (case orders_of topo as of
                    None \<Rightarrow> None
                  | Some ps \<Rightarrow> Some ((a, r) # ps)))"

text \<open>
  The loop \<open>for i in range(1, len(xs))\<close>: \<open>ys\<close> is the list of intervals built so far,
  the second argument what is left of \<open>xs\<close>. \<open>ys\<close> starts as \<open>[xs[0]]\<close> and is never empty.
\<close>

fun merge_intervals :: "int \<Rightarrow> (int \<times> int) list \<Rightarrow> (int \<times> int) list \<Rightarrow> (int \<times> int) list" where
  "merge_intervals limit ys [] = ys"
| "merge_intervals limit ys (cur # rest) =
     (let lst = last ys in
      if fst cur - snd lst \<le> limit
      then merge_intervals limit (butlast ys @ [(fst lst, snd cur)]) rest
      else merge_intervals limit (ys @ [cur]) rest)"

text \<open>
  The set comprehension that turns an interval into a band. A Python set that is iterated
  later is a duplicate-free list here.
\<close>

definition band_of :: "(op \<times> int) list \<Rightarrow> int \<times> int \<Rightarrow> op list" where
  "band_of ops_ords y =
     remdups (map fst (filter (\<lambda>p. fst y \<le> snd p \<and> snd p \<le> snd y) ops_ords))"

definition groupby :: "TOPOS \<Rightarrow> op list \<Rightarrow> int \<Rightarrow> error + op list list" where
  "groupby topo ops limit =
     (case orders_of topo ops of
        None \<Rightarrow> Inl TypeError
      | Some ops_ords \<Rightarrow>
          (let x = sort (map snd ops_ords);
               xs = map (\<lambda>i. (i, i)) x
           in case xs of
                [] \<Rightarrow> Inl IndexError
              | x0 # rest \<Rightarrow>
                  (let ys = merge_intervals limit [x0] rest
                   in Inr (map (band_of ops_ords) ys))))"

section \<open>Relocation insertion\<close>

text \<open>
  Tensor names (\<open>op.name + ":" + str(slot)\<close>) and the names \<open>_add_swapout\<close> and
  \<open>_add_swapin\<close> ask for. The graph library may append a suffix to keep names unique;
  the model keeps the name that was asked for.
\<close>

function str_nat :: "nat \<Rightarrow> string" where
  "str_nat n =
     (if n < 10 then [char_of (48 + n)]
      else str_nat (n div 10) @ [char_of (48 + n mod 10)])"
  by pat_completeness auto
termination
  by (relation "measure id") auto

declare str_nat.simps [simp del]

definition tensor_name :: "graph \<Rightarrow> tensor \<Rightarrow> string" where
  "tensor_name g t = op_name (g ! fst t) @ '':'' @ str_nat (snd t)"

definition replace :: "char \<Rightarrow> char \<Rightarrow> string \<Rightarrow> string" where
  "replace c d s = map (\<lambda>x. if x = c then d else x) s"

definition swap_name :: "string \<Rightarrow> graph \<Rightarrow> tensor \<Rightarrow> string" where
  "swap_name pre g ts0 = pre @ replace CHR '':'' CHR ''_'' (replace CHR ''/'' CHR ''_'' (tensor_name g ts0))"

definition add_swapout :: "LMS \<Rightarrow> op \<Rightarrow> tensor \<Rightarrow> error + LMS \<times> op" where
  "add_swapout self src_op ts0 =
     (let (g1, swap_out) = identity (the_graph self) ts0 (swap_name ''lms/swapout_'' (the_graph self) ts0)
      in case output_index g1 src_op ts0 of
           Inl e \<Rightarrow> Inl e
         | Inr src_out_idx \<Rightarrow>
             (case connect_ops g1 src_op swap_out False True src_out_idx of
                Inl e \<Rightarrow> Inl e
              | Inr g2 \<Rightarrow>
                  Inr (log_info (self\<lparr>graph := Some g2\<rparr>)
                         (Swap_out (tensor_name g2 ts0) (ndims g2 ts0)) 1,
                       swap_out)))"

text \<open>The loop \<open>for dest_op in dest_ops\<close> of \<open>_add_swapin\<close>.\<close>

fun connect_dests :: "TOPOS \<Rightarrow> op \<Rightarrow> tensor \<Rightarrow> op list \<Rightarrow> LMS \<Rightarrow> error + LMS" where
  "connect_dests topo swap_in ts0 [] self = Inr self"
| "connect_dests topo swap_in ts0 (dest_op # rest) self =
     (case input_index (the_graph self) dest_op ts0 of
        Inl e \<Rightarrow> Inl e
      | Inr input_idx \<Rightarrow>
          (case connect_ops (the_graph self) swap_in dest_op True False input_idx of
             Inl e \<Rightarrow> Inl e
           | Inr g' \<Rightarrow>
               connect_dests topo swap_in ts0 rest
                 (log_info (self\<lparr>graph := Some g'\<rparr>)
                    (Swap_in (tensor_name g' ts0) (ndims g' ts0) (op_name (g' ! dest_op))
                       (get_order topo dest_op)) 1)))"

definition add_swapin :: "TOPOS \<Rightarrow> LMS \<Rightarrow> op \<Rightarrow> op list \<Rightarrow> tensor \<Rightarrow> error + LMS \<times> op" where
  "add_swapin topo self swapout_op dest_ops ts0 =
     (let (g1, swap_in) = identity (the_graph self) ts0 (swap_name ''lms/swapin_'' (the_graph self) ts0)
      in case connect_ops g1 swapout_op swap_in False False 0 of
           Inl e \<Rightarrow> Inl e
         | Inr g2 \<Rightarrow>
             (case connect_dests topo swap_in ts0 dest_ops (self\<lparr>graph := Some g2\<rparr>) of
                Inl e \<Rightarrow> Inl e
              | Inr self' \<Rightarrow> Inr (self', swap_in)))"

text \<open>
  \<open>xs[0]\<close>, and \<open>sorted\<close> on ranks: Python 3 cannot order \<open>None\<close> against an integer,
  so sorting raises \<open>TypeError\<close> when it has to compare an absent rank with anything.
\<close>

fun first :: "'a list \<Rightarrow> error + 'a" where
  "first [] = Inl IndexError"
| "first (x # xs) = Inr x"

definition sorted_orders :: "int option list \<Rightarrow> error + int option list" where
  "sorted_orders rs =
     (if length rs \<le> 1 then Inr rs
      else (case those rs of
              None \<Rightarrow> Inl TypeError
            | Some ks \<Rightarrow> Inr (map Some (sort ks))))"

text \<open>The anchor of a band: the first of its operations that has the least rank.\<close>

definition earliest :: "TOPOS \<Rightarrow> op list \<Rightarrow> error + op" where
  "earliest topo dest_ops =
     (let ops_ords = map (\<lambda>a. (a, get_order topo a)) dest_ops
      in case sorted_orders (map snd ops_ords) of
           Inl e \<Rightarrow> Inl e
         | Inr srt \<Rightarrow>
             (case first srt of
                Inl e \<Rightarrow> Inl e
              | Inr x \<Rightarrow> first (map fst (filter (\<lambda>p. snd p = x) ops_ords))))"

text \<open>
  The loop \<open>for dest_ops in targets\<close> of \<open>_insert_swap_nodes_for_ts\<close>; \<open>dest_sin\<close> is the
  set of pairs collected so far.
\<close>

fun add_swapins ::
  "TOPOS \<Rightarrow> op \<Rightarrow> tensor \<Rightarrow> op list list \<Rightarrow> LMS \<Rightarrow> (op \<times> op) list \<Rightarrow> error + LMS \<times> (op \<times> op) list" where
  "add_swapins topo swapout_op ts [] self dest_sin = Inr (self, dest_sin)"
| "add_swapins topo swapout_op ts (dest_ops # targets) self dest_sin =
     (case add_swapin topo self swapout_op dest_ops ts of
        Inl e \<Rightarrow> Inl e
      | Inr (self', swapin_op) \<Rightarrow>
          (case earliest topo dest_ops of
             Inl e \<Rightarrow> Inl e
           | Inr dest_op \<Rightarrow>
               add_swapins topo swapout_op ts targets self'
                 (if (dest_op, swapin_op) \<in> set dest_sin then dest_sin
                  else dest_sin @ [(dest_op, swapin_op)])))"

definition insert_swap_nodes_for_ts ::
  "TOPOS \<Rightarrow> LMS \<Rightarrow> op \<Rightarrow> tensor \<Rightarrow> op list list \<Rightarrow> error + LMS \<times> op \<times> (op \<times> op) list" where
  "insert_swap_nodes_for_ts topo self src_op ts targets =
     (case add_swapout self src_op ts of
        Inl e \<Rightarrow> Inl e
      | Inr (self1, swapout_op) \<Rightarrow>
          (case add_control_inputs (the_graph self1) swapout_op src_op of
             Inl e \<Rightarrow> Inl e
           | Inr (g2, added) \<Rightarrow>
               (case add_swapins topo swapout_op ts targets (self1\<lparr>graph := Some g2\<rparr>) [] of
                  Inl e \<Rightarrow> Inl e
                | Inr (self3, dest_sin) \<Rightarrow> Inr (self3, swapout_op, dest_sin))))"

section \<open>Candidate selection: \<open>_insert_swap_nodes\<close>\<close>

text \<open>
  The list comprehension \<open>cands\<close>: \<open>self._get_order(op) - src_op_order\<close> raises
  \<open>TypeError\<close> when either rank is \<open>None\<close>.
\<close>

fun filter_cands :: "TOPOS \<Rightarrow> int option \<Rightarrow> int \<Rightarrow> op list \<Rightarrow> error + op list" where
  "filter_cands topo src_op_order threshold [] = Inr []"
| "filter_cands topo src_op_order threshold (c # cs) =
     (case (get_order topo c, src_op_order) of
        (Some rc, Some rs) \<Rightarrow>
          (case filter_cands topo src_op_order threshold cs of
             Inl e \<Rightarrow> Inl e
           | Inr r \<Rightarrow> Inr (if rc - rs > threshold then c # r else r))
      | _ \<Rightarrow> Inl TypeError)"

text \<open>
  The loop \<open>for ts in src_op.outputs\<close>; the result is the dictionary \<open>ts_dests\<close>, in the
  order in which its keys were inserted.
\<close>

fun select_dests ::
  "TOPOS \<Rightarrow> graph \<Rightarrow> int option \<Rightarrow> int \<Rightarrow> tensor list \<Rightarrow> error + (tensor \<times> op list) list" where
  "select_dests topo g src_op_order threshold [] = Inr []"
| "select_dests topo g src_op_order threshold (ts # rest) =
     (case ndims g ts of
        None \<Rightarrow> select_dests topo g src_op_order threshold rest
      | Some n \<Rightarrow>
          if n \<le> 1 then select_dests topo g src_op_order threshold rest
          else (case filter_cands topo src_op_order threshold (get_consuming_ops g [ts]) of
                  Inl e \<Rightarrow> Inl e
                | Inr cands \<Rightarrow>
                    if length cands = 0 then select_dests topo g src_op_order threshold rest
                    else (case select_dests topo g src_op_order threshold rest of
                            Inl e \<Rightarrow> Inl e
                          | Inr ts_dests \<Rightarrow> Inr ((ts, cands) # ts_dests))))"

text \<open>The loop \<open>for dest, sin in dest_sin\<close> that keeps the newly added operations.\<close>

fun keep_swapins :: "op \<Rightarrow> (op \<times> op) list \<Rightarrow> LMS \<Rightarrow> LMS" where
  "keep_swapins src_op [] self = self"
| "keep_swapins src_op ((dest, sin) # rest) self =
     keep_swapins src_op rest
       (self\<lparr>swapin_ops := insert sin (swapin_ops self),
              excl_ops := insert sin (excl_ops self),
              ops_triples := ops_triples self @ [(src_op, dest, sin)]\<rparr>)"

text \<open>The loop \<open>for ts in ts_dests\<close>.\<close>

fun insert_for_dests :: "TOPOS \<Rightarrow> op \<Rightarrow> (tensor \<times> op list) list \<Rightarrow> LMS \<Rightarrow> error + LMS" where
  "insert_for_dests topo src_op [] self = Inr self"
| "insert_for_dests topo src_op ((ts, cands) # rest) self =
     (case groupby topo cands (swapin_groupby self) of
        Inl e \<Rightarrow> Inl e
      | Inr dests_grp \<Rightarrow>
          (case insert_swap_nodes_for_ts topo self src_op ts dests_grp of
             Inl e \<Rightarrow> Inl e
           | Inr (self1, sout, dest_sin) \<Rightarrow>
               insert_for_dests topo src_op rest
                 (keep_swapins src_op dest_sin
                    (self1\<lparr>swapout_ops := insert sout (swapout_ops self1),
                            excl_ops := insert sout (excl_ops self1)\<rparr>))))"

definition insert_swap_nodes :: "TOPOS \<Rightarrow> LMS \<Rightarrow> op \<Rightarrow> error + LMS" where
  "insert_swap_nodes topo self src_op =
     (let self1 = log_info self (Operation src_op) 2;
          src_op_order = get_order topo src_op
      in case select_dests topo (the_graph self1) src_op_order (swapout_threshold self1)
                (op_outputs (the_graph self1) src_op) of
           Inl e \<Rightarrow> Inl e
         | Inr ts_dests \<Rightarrow>
             if ts_dests = [] then Inr self1
             else insert_for_dests topo src_op ts_dests
                    (log_info self1
                       (Operation_order (op_name (the_graph self1 ! src_op))
                          (get_order topo src_op) (op_type (the_graph self1 ! src_op))) 1))"

section \<open>The traversal: \<open>_do_action\<close>\<close>

text \<open>What the loop body does for \<open>src_op\<close>.\<close>

definition visit :: "TOPOS \<Rightarrow> LMS \<Rightarrow> op \<Rightarrow> error + LMS" where
  "visit topo self src_op =
     (if src_op \<in> excl_ops self then Inr self
      else if get_order topo src_op = None then Inr self
      else if incl_ops self \<noteq> {} then
        (if src_op \<in> incl_ops self then insert_swap_nodes topo self src_op else Inr self)
      else insert_swap_nodes topo self src_op)"

text \<open>The loop \<open>for op in next_ops\<close> that puts the successors on the queue.\<close>

fun put_next :: "op set \<Rightarrow> op list \<Rightarrow> op list \<Rightarrow> op list" where
  "put_next closed_set [] open_set = open_set"
| "put_next closed_set (a # next_ops) open_set =
     (if a \<in> closed_set then put_next closed_set next_ops open_set
      else if a \<notin> set open_set then put_next closed_set next_ops (open_set @ [a])
      else put_next closed_set next_ops open_set)"

text \<open>
  The loop \<open>while not open_set.empty()\<close>. The result is \<open>None\<close> when the loop does not
  come to an end.
\<close>

partial_function (option) do_action_loop ::
  "TOPOS \<Rightarrow> op list \<Rightarrow> op set \<Rightarrow> LMS \<Rightarrow> (error + LMS) option" where
  "do_action_loop topo open_set closed_set self =
     (case open_set of
        [] \<Rightarrow> Some (Inr self)
      | src_op # queue \<Rightarrow>
          (case visit topo self src_op of
             Inl e \<Rightarrow> Some (Inl e)
           | Inr self' \<Rightarrow>
               do_action_loop topo
                 (put_next closed_set (fanouts (the_graph self) src_op) queue)
                 (insert src_op closed_set) self'))"

declare do_action_loop.simps [code]

definition do_action :: "TOPOS \<Rightarrow> LMS \<Rightarrow> op list \<Rightarrow> (error + LMS) option" where
  "do_action topo self src_ops = do_action_loop topo src_ops {} self"

section \<open>Dependency scheduling\<close>

text \<open>\<open>_get_forward_walk_ops\<close>, with the cache \<open>_ops_dict\<close>.\<close>

definition get_forward_walk_ops :: "LMS \<Rightarrow> op \<Rightarrow> bool \<Rightarrow> LMS \<times> op list" where
  "get_forward_walk_ops self a inclusive =
     (case ops_dict self a of
        Some r \<Rightarrow> (self, if inclusive then r else filter (\<lambda>b. b \<noteq> a) r)
      | None \<Rightarrow>
          (let ret = ge_get_forward_walk_ops (the_graph self) a
           in (self\<lparr>ops_dict := (ops_dict self)(a \<mapsto> ret)\<rparr>,
               if inclusive then ret else filter (\<lambda>b. b \<noteq> a) ret)))"

text \<open>
  The first set comprehension of \<open>_do_direct_order\<close>: the candidates from which \<open>src_op\<close>
  is reached. Each test may add an entry to the cache.
\<close>

fun on_chain :: "op \<Rightarrow> op list \<Rightarrow> LMS \<Rightarrow> LMS \<times> op list" where
  "on_chain src_op [] self = (self, [])"
| "on_chain src_op (a # candidates) self =
     (let (self1, walk) = get_forward_walk_ops self a True;
          (self2, r) = on_chain src_op candidates self1
      in (self2, if src_op \<in> set walk then a # r else r))"

text \<open>\<open>sub in s\<close> on strings.\<close>

fun contains :: "string \<Rightarrow> string \<Rightarrow> bool" where
  "contains [] sub = (sub = [])"
| "contains (c # s) sub = (startswith (c # s) sub \<or> contains s sub)"

text \<open>
  The loop \<open>for i in reversed(range(range_lb, range_ub))\<close>, from rank \<open>i\<close> downwards; the
  result is the object, \<open>result_ops\<close> and \<open>ctrld_order\<close>.
\<close>

function search_ranks :: "TOPOS \<Rightarrow> op \<Rightarrow> int \<Rightarrow> int \<Rightarrow> LMS \<Rightarrow> LMS \<times> op list \<times> int" where
  "search_ranks topo src_op range_lb i self =
     (if i < range_lb then (self, [], - 1)
      else (let chain = on_chain src_op (get_ops topo i) self;
                candidates = filter (\<lambda>a. \<not> contains (op_name (the_graph self ! a)) ''/cond/'')
                               (snd chain)
            in if candidates \<noteq> [] then (fst chain, candidates, i)
               else search_ranks topo src_op range_lb (i - 1) (fst chain)))"
  by pat_completeness auto
termination
  by (relation "measure (\<lambda>(topo, src_op, range_lb, i, self). nat (i - range_lb + 1))") auto

declare search_ranks.simps [simp del]

definition do_direct_order ::
  "TOPOS \<Rightarrow> LMS \<Rightarrow> op \<Rightarrow> op \<Rightarrow> int \<Rightarrow> error + LMS \<times> op option \<times> int" where
  "do_direct_order topo self fw_op src_op distance =
     (case (get_order topo fw_op, get_order topo src_op) of
        (Some fw_order, Some src_order) \<Rightarrow>
          (let range_ub = src_order - distance;
               range_lb = fw_order + 1;
               found = search_ranks topo src_op range_lb (range_ub - 1) self
           in case fst (snd found) of
                [] \<Rightarrow> Inr (fst found, None, - 1)
              | ctrld_op # _ \<Rightarrow> Inr (fst found, Some ctrld_op, snd (snd found)))
      | _ \<Rightarrow> Inl TypeError)"

definition add_control_dependency :: "TOPOS \<Rightarrow> LMS \<Rightarrow> op \<Rightarrow> op \<Rightarrow> op \<Rightarrow> int \<Rightarrow> error + LMS" where
  "add_control_dependency topo self src_op dest_op swapin_op ahead =
     (case do_direct_order topo self src_op dest_op ahead of
        Inl e \<Rightarrow> Inl e
      | Inr (self1, ctrld, ctrld_order) \<Rightarrow>
          (case ctrld of
             Some ctrld_op \<Rightarrow>
               (case add_control_inputs (the_graph self1) swapin_op ctrld_op of
                  Inl e \<Rightarrow> Inl e
                | Inr (g', added) \<Rightarrow>
                    Inr (log_info (self1\<lparr>graph := Some g'\<rparr>)
                           (Control_dependency (op_name (g' ! ctrld_op)) ctrld_order
                              (op_name (g' ! dest_op)) (get_order topo dest_op)) 1))
           | None \<Rightarrow>
               Inr (log_info self1 (No_control_dependency (op_name (the_graph self1 ! src_op))) 1)))"

text \<open>
  The calls of \<open>_add_control_dependency\<close> one after the other: a relocation triple with the
  lookahead it is scheduled with.
\<close>

fun add_dependencies :: "TOPOS \<Rightarrow> ((op \<times> op \<times> op) \<times> int) list \<Rightarrow> LMS \<Rightarrow> error + LMS" where
  "add_dependencies topo [] self = Inr self"
| "add_dependencies topo (((src_op, dest_op, swapin_op), ahead) # rest) self =
     (case add_control_dependency topo self src_op dest_op swapin_op ahead of
        Inl e \<Rightarrow> Inl e
      | Inr self' \<Rightarrow> add_dependencies topo rest self')"

text \<open>
  \<open>_sequential_strategy\<close>. The ranks of the anchors are the sort keys; \<open>keyed\<close> pairs each
  triple with its key and is \<open>None\<close> when an anchor has no rank. In that case the strategy
  raises \<open>TypeError\<close> before it changes anything: in \<open>sorted\<close> when there are several
  triples, in the first call of \<open>_do_direct_order\<close> when there is one.
\<close>

fun keyed :: "TOPOS \<Rightarrow> (op \<times> op \<times> op) list \<Rightarrow> (int \<times> (op \<times> op \<times> op)) list option" where
  "keyed topo [] = Some []"
| "keyed topo (t # ts) =
     (case get_order topo (fst (snd t)) of
        None \<Rightarrow> None
      | Some r \<Rightarrow> (case keyed topo ts of
                    None \<Rightarrow> None
                  | Some ks \<Rightarrow> Some ((r, t) # ks)))"

text \<open>
  The first loop schedules the triples of the least anchor rank with the fixed lookahead 3
  and stops at the first other rank.
\<close>

fun first_swapins :: "int \<Rightarrow> (int \<times> (op \<times> op \<times> op)) list \<Rightarrow> ((op \<times> op \<times> op) \<times> int) list" where
  "first_swapins x0_dest_order [] = []"
| "first_swapins x0_dest_order (xi # x) =
     (if fst xi = x0_dest_order then (snd xi, 3) # first_swapins x0_dest_order x else [])"

text \<open>The second loop, with its variables \<open>lb\<close> and \<open>last_order\<close>.\<close>

fun later_swapins ::
  "int \<Rightarrow> int \<Rightarrow> (int \<times> (op \<times> op \<times> op)) list \<Rightarrow> ((op \<times> op \<times> op) \<times> int) list" where
  "later_swapins lb last_order [] = []"
| "later_swapins lb last_order (xi # x) =
     (let curr_order = fst xi;
          lb' = (if curr_order \<noteq> last_order then last_order else lb);
          last_order' = (if curr_order \<noteq> last_order then curr_order else last_order);
          ahead = curr_order - lb'
      in (snd xi, ahead) # later_swapins lb' last_order' x)"

definition sequential_calls ::
  "TOPOS \<Rightarrow> (op \<times> op \<times> op) list \<Rightarrow> error + ((op \<times> op \<times> op) \<times> int) list" where
  "sequential_calls topo triples =
     (case keyed topo triples of
        None \<Rightarrow> Inl TypeError
      | Some ks \<Rightarrow>
          (let x = sort_key fst ks
           in case x of
                [] \<Rightarrow> Inl IndexError
              | x0 # _ \<Rightarrow>
                  (let x0_dest_order = fst x0;
                       firsts = first_swapins x0_dest_order x;
                       k = length firsts - 1
                   in Inr (firsts @ later_swapins x0_dest_order x0_dest_order (drop (k + 1) x)))))"

definition sequential_strategy :: "TOPOS \<Rightarrow> LMS \<Rightarrow> error + LMS" where
  "sequential_strategy topo self =
     (case sequential_calls topo (ops_triples self) of
        Inl e \<Rightarrow> Inl e
      | Inr calls \<Rightarrow> add_dependencies topo calls self)"

definition add_control_dependencies :: "TOPOS \<Rightarrow> LMS \<Rightarrow> error + LMS" where
  "add_control_dependencies topo self =
     (if swapin_ahead self < 0 then sequential_strategy topo self
      else add_dependencies topo (map (\<lambda>t. (t, swapin_ahead self)) (ops_triples self)) self)"

text \<open>
  \<open>_sync_ops\<close>: \<open>_add_controls(ops1, ops2)\<close> gives every operation of \<open>ops1\<close> the
  control inputs \<open>ops2\<close>.
\<close>

fun add_controls :: "op list \<Rightarrow> op list \<Rightarrow> graph \<Rightarrow> error + graph" where
  "add_controls [] ops2 g = Inr g"
| "add_controls (op1 # ops1) ops2 g =
     (case ge_add_control_inputs g op1 ops2 of
        Inl e \<Rightarrow> Inl e
      | Inr g' \<Rightarrow> add_controls ops1 ops2 g')"

definition sins :: "LMS \<Rightarrow> graph \<Rightarrow> op \<Rightarrow> op list" where
  "sins self g a = filter (\<lambda>b. b \<in> swapin_ops self) (fanins g a)"

definition souts :: "LMS \<Rightarrow> graph \<Rightarrow> op \<Rightarrow> op list" where
  "souts self g a = filter (\<lambda>b. b \<in> swapout_ops self) (fanouts g a)"

fun sync_dest_ops :: "LMS \<Rightarrow> op list \<Rightarrow> graph \<Rightarrow> error + graph" where
  "sync_dest_ops self [] g = Inr g"
| "sync_dest_ops self (x # dest_ops) g =
     (let x_sins = sins self g x;
          fs = filter (\<lambda>b. b \<notin> set x_sins) (fanins g x)
      in case add_controls x_sins fs g of
           Inl e \<Rightarrow> Inl e
         | Inr g' \<Rightarrow> sync_dest_ops self dest_ops g')"

fun sync_src_ops :: "LMS \<Rightarrow> op list \<Rightarrow> graph \<Rightarrow> error + graph" where
  "sync_src_ops self [] g = Inr g"
| "sync_src_ops self (x # src_ops) g =
     (let x_souts = souts self g x;
          fs = filter (\<lambda>b. b \<notin> set x_souts) (fanouts g x)
      in case add_controls fs x_souts g of
           Inl e \<Rightarrow> Inl e
         | Inr g' \<Rightarrow> sync_src_ops self src_ops g')"

definition sync_ops :: "LMS \<Rightarrow> int \<Rightarrow> error + LMS" where
  "sync_ops self mode =
     (case (if mode \<in> {1, 3}
            then sync_dest_ops self
                   (concatenate_unique [] (map (\<lambda>t. fst (snd t)) (ops_triples self)))
                   (the_graph self)
            else Inr (the_graph self)) of
        Inl e \<Rightarrow> Inl e
      | Inr g1 \<Rightarrow>
          (case (if mode \<in> {2, 3}
                 then sync_src_ops self
                        (concatenate_unique [] (map fst (ops_triples self))) g1
                 else Inr g1) of
             Inl e \<Rightarrow> Inl e
           | Inr g2 \<Rightarrow> Inr (self\<lparr>graph := Some g2\<rparr>)))"

section \<open>The orchestrator: \<open>run\<close>\<close>

text \<open>
  \<open>topo\<close> is the index that \<open>topos.TOPOS(all_ops)\<close> builds. The result is \<open>None\<close> when
  the traversal does not come to an end.
\<close>

definition log_orders :: "TOPOS \<Rightarrow> LMS \<Rightarrow> LMS" where
  "log_orders topo self =
     fold (\<lambda>i s. log_info s
                   (Ops_of_order (int i)
                      (map (\<lambda>a. (op_name (the_graph s ! a), op_type (the_graph s ! a)))
                         (get_ops topo (int i)))) 1)
       [0..<nat (topo_size topo)] self"

definition run :: "TOPOS \<Rightarrow> LMS \<Rightarrow> graph option \<Rightarrow> (error + LMS) option" where
  "run topo self0 graph_arg =
     (let self1 = (case graph_arg of Some g \<Rightarrow> self0\<lparr>graph := Some g\<rparr> | None \<Rightarrow> self0)
      in case graph self1 of
           None \<Rightarrow> Some (Inl ValueError)
         | Some g \<Rightarrow>
             (let self2 = log_info self1 Editing_model 0;
                  all_ops = make_list_of_op g;
                  self3 = log_info self2 (Graph_has_ops (length all_ops)) 0;
                  self4 = self3\<lparr>excl_ops :=
                            filter_scopes_and_types g all_ops (excl_scopes self3) (excl_types self3)\<rparr>;
                  self5 = self4\<lparr>incl_ops :=
                            filter_scopes_and_types g all_ops (incl_scopes self4) (incl_types self4)\<rparr>;
                  self6 = log_info self5 (Topological_sort_size (topo_size topo)) 0;
                  self7 = log_orders topo self6;
                  self8 = (if swapout_threshold self7 < 0
                           then (log_info self7 Auto_swapout_threshold 0)
                                  \<lparr>swapout_threshold := topo_size topo div 2\<rparr>
                           else self7);
                  self9 = print_configuration self8
              in case do_action topo self9 all_ops of
                   None \<Rightarrow> None
                 | Some (Inl e) \<Rightarrow> Some (Inl e)
                 | Some (Inr self10) \<Rightarrow>
                     (case (if sync_mode self10 = 0 then add_control_dependencies topo self10
                            else sync_ops self10 (sync_mode self10)) of
                        Inl e \<Rightarrow> Some (Inl e)
                      | Inr self11 \<Rightarrow>
                          Some (Inr (log_info
                                       (log_info self11
                                          (Added_operations
                                             (card (swapout_ops self11) + card (swapin_ops self11))
                                             (card (swapout_ops self11)) (card (swapin_ops self11))) 0)
                                       Editing_took 0)))))"

section \<open>Example graphs\<close>

text \<open>
  A chain of eight operations, each reading the output of the one before; the last one also
  reads the output of the first. Every output has shape rank 2, and the rank of an operation
  in the topological order is its position.
\<close>

definition node :: "string \<Rightarrow> string \<Rightarrow> tensor list \<Rightarrow> operation" where
  "node n t i = \<lparr>op_name = n, op_type = t, inputs = i, outputs = [Some 2], control_inputs = []\<rparr>"

definition chain :: "string \<Rightarrow> graph" where
  "chain t0 =
     [node ''n0'' t0 [], node ''n1'' ''Relu'' [(0, 0)], node ''n2'' ''Relu'' [(1, 0)],
      node ''n3'' ''Relu'' [(2, 0)], node ''n4'' ''Relu'' [(3, 0)], node ''n5'' ''Relu'' [(4, 0)],
      node ''n6'' ''Relu'' [(5, 0)], node ''n7'' ''Add'' [(6, 0), (0, 0)]]"

definition chain_topo :: TOPOS where
  "chain_topo =
     \<lparr>get_order = (\<lambda>a. if a < 8 then Some (int a) else None),
      get_ops = (\<lambda>i. if 0 \<le> i \<and> i < 8 then [nat i] else []),
      topo_size = 8\<rparr>"

text \<open>Two operations, the second reading the first.\<close>

definition pair_graph :: graph where
  "pair_graph = [node ''a'' ''MatMul'' [], node ''b'' ''Relu'' [(0, 0)]]"

definition pair_topo :: TOPOS where
  "pair_topo =
     \<lparr>get_order = (\<lambda>a. if a < 2 then Some (int a) else None),
      get_ops = (\<lambda>i. if 0 \<le> i \<and> i < 2 then [nat i] else []),
      topo_size = 2\<rparr>"

text \<open>
  A run of a freshly constructed object with the constructor's default arguments, except for
  those given.
\<close>

definition run_with :: "TOPOS \<Rightarrow> graph \<Rightarrow> int \<Rightarrow> int \<Rightarrow> int \<Rightarrow> (error + LMS) option" where
  "run_with topo g threshold ahead mode =
     (case init None [] [] {} {} threshold 5 ahead mode False 1 of
        Inl e \<Rightarrow> Some (Inl e)
      | Inr self \<Rightarrow> run topo self (Some g))"

text \<open>What a run is observed to do: the exception it raises, the triples it records.\<close>

definition raises :: "error \<Rightarrow> (error + LMS) option \<Rightarrow> bool" where
  "raises e r = (case r of Some (Inl e') \<Rightarrow> e' = e | _ \<Rightarrow> False)"

definition triples_of :: "(error + LMS) option \<Rightarrow> (op \<times> op \<times> op) list option" where
  "triples_of r = (case r of Some (Inr self) \<Rightarrow> Some (ops_triples self) | _ \<Rightarrow> None)"

section \<open>Control edges leave the data edges alone\<close>

definition same_data :: "graph \<Rightarrow> graph \<Rightarrow> bool" where
  "same_data g g' \<longleftrightarrow>
     length g' = length g \<and>
     (\<forall>a. inputs (g' ! a) = inputs (g ! a) \<and> outputs (g' ! a) = outputs (g ! a)
          \<and> op_name (g' ! a) = op_name (g ! a) \<and> op_type (g' ! a) = op_type (g ! a))"

lemma same_data_refl: "same_data g g"
  by (simp add: same_data_def)


lemma same_data_consumers: "same_data g g' \<Longrightarrow> consumers g' t = consumers g t"
  by (simp add: same_data_def consumers_def)

lemma same_data_op_outputs: "same_data g g' \<Longrightarrow> op_outputs g' a = op_outputs g a"
  by (simp add: same_data_def op_outputs_def)

lemma same_data_get_consuming_ops:
  "same_data g g' \<Longrightarrow> get_consuming_ops g' ts = get_consuming_ops g ts"
  by (simp add: get_consuming_ops_def same_data_consumers)

lemma same_data_fanouts: "same_data g g' \<Longrightarrow> fanouts g' a = fanouts g a"
  by (simp add: fanouts_def same_data_get_consuming_ops same_data_op_outputs)


lemma nth_list_update_any: "xs[i := x] ! j = (if i = j \<and> i < length xs then x else xs ! j)"
  by (cases "i < length xs") (auto simp: nth_list_update list_update_beyond not_less)

lemma ge_add_control_inputs_same_data:
  "ge_add_control_inputs g a cops = Inr g' \<Longrightarrow> same_data g g'"
  by (auto simp: ge_add_control_inputs_def same_data_def nth_list_update_any split: if_splits)

lemma ge_add_control_inputs_control:
  "ge_add_control_inputs g a cops = Inr g' \<Longrightarrow>
   control_inputs (g' ! b) =
     (if b = a \<and> a < length g then control_inputs (g ! a) @ cops else control_inputs (g ! b))"
  by (auto simp: ge_add_control_inputs_def nth_list_update_any split: if_splits)

section \<open>The guarded insertion of a control edge\<close>

text \<open>
  Claim C10. \<open>_add_control_inputs(op1, op2)\<close>, which adds the edge from the producer to the
  move-out operation and the edge from the trigger to the move-in operation, never raises.
  It returns \<open>False\<close> and leaves the graph as it is when \<open>op2\<close> is a control input of
  \<open>op1\<close> already, when \<open>op1\<close> is a control input of \<open>op2\<close>, or when \<open>op2\<close> reads an
  output of \<open>op1\<close>. Hence it never makes a control edge a second time, and when it does add
  the edge from \<open>op2\<close> to \<open>op1\<close>, there is neither a control edge nor a data edge from
  \<open>op1\<close> back to \<open>op2\<close>.
\<close>

theorem add_control_inputs_guarded:
  assumes "op1 < length g" and "op1 \<noteq> op2"
  shows "\<exists>g' added. add_control_inputs g op1 op2 = Inr (g', added) \<and>
           (if op2 \<in> set (control_inputs (g ! op1)) \<or> op1 \<in> set (control_inputs (g ! op2))
                \<or> op2 \<in> set (fanouts g op1)
            then g' = g \<and> \<not> added
            else added \<and> control_inputs (g' ! op1) = control_inputs (g ! op1) @ [op2]
                   \<and> op1 \<notin> set (control_inputs (g' ! op2))
                   \<and> op2 \<notin> set (fanouts g' op1)) \<and>
           (distinct (control_inputs (g ! op1)) \<longrightarrow> distinct (control_inputs (g' ! op1)))"
proof (cases "op2 \<in> set (control_inputs (g ! op1)) \<or> op1 \<in> set (control_inputs (g ! op2))
              \<or> op2 \<in> set (fanouts g op1)")
  case True
  then have "add_control_inputs g op1 op2 = Inr (g, False)"
    by (auto simp: add_control_inputs_def)
  then show ?thesis using True by auto
next
  case False
  then have no: "op2 \<notin> set (control_inputs (g ! op1))" "op1 \<notin> set (control_inputs (g ! op2))"
    "op2 \<notin> set (fanouts g op1)" by auto
  define g' where "g' = g[op1 := (g ! op1)\<lparr>control_inputs := control_inputs (g ! op1) @ [op2]\<rparr>]"
  have ge: "ge_add_control_inputs g op1 [op2] = Inr g'"
    using no by (simp add: ge_add_control_inputs_def g'_def)
  have res: "add_control_inputs g op1 op2 = Inr (g', True)"
    using no ge by (simp add: add_control_inputs_def)
  have c1: "control_inputs (g' ! op1) = control_inputs (g ! op1) @ [op2]"
    using ge_add_control_inputs_control [OF ge] assms by simp
  have c2: "control_inputs (g' ! op2) = control_inputs (g ! op2)"
    using ge_add_control_inputs_control [OF ge] assms by auto
  have f: "fanouts g' op1 = fanouts g op1"
    using ge_add_control_inputs_same_data [OF ge] by (rule same_data_fanouts)
  show ?thesis using res no c1 c2 f False by auto
qed

text \<open>
  In the pair graph the first operation feeds the second: asking for a control edge from the
  second to the first changes nothing, and the edge from the first to the second is added.
\<close>

theorem add_control_inputs_guarded_witness:
  "(0::nat) < length pair_graph \<and> (0::nat) \<noteq> 1 \<and>
   add_control_inputs pair_graph 0 1 = Inr (pair_graph, False) \<and>
   (\<exists>g'. add_control_inputs pair_graph 1 0 = Inr (g', True) \<and> control_inputs (g' ! 1) = [0])"
proof -
  have a: "(0::nat) < length pair_graph" "(1::nat) < length pair_graph"
    by (simp_all add: pair_graph_def)
  have f: "fanouts pair_graph 0 = [1]" "fanouts pair_graph 1 = []"
    by (simp_all add: fanouts_def get_consuming_ops_def op_outputs_def consumers_def
        pair_graph_def node_def)
  have c: "control_inputs (pair_graph ! 0) = []" "control_inputs (pair_graph ! 1) = []"
    by (simp_all add: pair_graph_def node_def)
  show ?thesis
    using add_control_inputs_guarded [OF a(1), of 1] add_control_inputs_guarded [OF a(2), of 0]
      a f c
    by auto
qed

section \<open>A run that relocates nothing\<close>

lemma sequential_strategy_no_triples:
  "ops_triples self = [] \<Longrightarrow> sequential_strategy topo self = Inl IndexError"
  by (simp add: sequential_strategy_def sequential_calls_def)

text \<open>
  Claim C1 says that a run with a graph and a valid synchronisation mode completes without an
  error, also when no relocation triple is created. In the pair graph the only consumer is at
  distance 1, which does not exceed the automatic threshold \<open>2 // 2 = 1\<close>, so nothing is
  relocated. With the default arguments (asynchronous mode, automatic lookahead) the run then
  raises \<open>IndexError\<close>: \<open>_sequential_strategy\<close> reads \<open>x[0]\<close> of the empty list of
  triples. With a lookahead given by the user, or in synchronous mode 1, the same run completes
  with no triple.
\<close>

theorem run_raises_when_nothing_is_relocated:
  "raises IndexError (run_with pair_topo pair_graph (- 1) (- 1) 0) \<and>
   triples_of (run_with pair_topo pair_graph (- 1) 1 0) = Some [] \<and>
   triples_of (run_with pair_topo pair_graph (- 1) (- 1) 1) = Some []"
  by code_simp

section \<open>The built-in excluded types\<close>

text \<open>
  Claim C5 says that every built-in structural type, \<open>AssignSubVariableOp\<close> and
  \<open>ResourceGather\<close> among them, is in the excluded-type filter, so that no operation of such
  a type is a relocation source. The set the constructor builds holds the single string
  \<open>AssignSubVariableOpResourceGather\<close> instead of those two: in the chain whose first
  operation has type \<open>ResourceGather\<close>, a run with the default arguments relocates the output
  of that operation (the triple's source is operation 0), while it relocates nothing when the
  type is \<open>Const\<close>.
\<close>

theorem resource_gather_is_relocated:
  "''AssignSubVariableOp'' \<notin> unused_types \<and> ''ResourceGather'' \<notin> unused_types \<and>
   ''AssignSubVariableOpResourceGather'' \<in> unused_types \<and>
   triples_of (run_with chain_topo (chain ''ResourceGather'') (- 1) (- 1) 0) = Some [(0, 7, 9)] \<and>
   triples_of (run_with chain_topo (chain ''Const'') (- 1) (- 1) 1) = Some []"
  by code_simp

section \<open>The bands of \<open>_groupby\<close>\<close>

text \<open>The rank of an operation that has one.\<close>

definition rank_of :: "TOPOS \<Rightarrow> op \<Rightarrow> int" where
  "rank_of topo a = (case get_order topo a of Some r \<Rightarrow> r | None \<Rightarrow> 0)"

text \<open>Every operation of a list has a rank.\<close>

definition ranked :: "TOPOS \<Rightarrow> op list \<Rightarrow> bool" where
  "ranked topo ops \<longleftrightarrow> (\<forall>a\<in>set ops. get_order topo a \<noteq> None)"

text \<open>
  The merge loop read with its open interval \<open>(lo, hi)\<close> passed along: the intervals it
  closes, in order.
\<close>

fun runs :: "int \<Rightarrow> int \<Rightarrow> int \<Rightarrow> int list \<Rightarrow> (int \<times> int) list" where
  "runs limit lo hi [] = [(lo, hi)]"
| "runs limit lo hi (r # rs) =
     (if r - hi \<le> limit then runs limit lo r rs else (lo, hi) # runs limit r r rs)"

lemma merge_intervals_runs:
  "merge_intervals limit (pre @ [(lo, hi)]) (map (\<lambda>i. (i, i)) rs) = pre @ runs limit lo hi rs"
proof (induction rs arbitrary: pre lo hi)
  case Nil
  then show ?case by simp
next
  case (Cons r rs)
  show ?case
  proof (cases "r - hi \<le> limit")
    case True
    then show ?thesis using Cons [of pre lo r] by simp
  next
    case False
    then show ?thesis using Cons [of "pre @ [(lo, hi)]" r r] by simp
  qed
qed

lemma orders_of_Some:
  "orders_of topo ops = Some ps \<Longrightarrow> ps = map (\<lambda>a. (a, rank_of topo a)) ops
     \<and> (\<forall>a\<in>set ops. get_order topo a \<noteq> None)"
  by (induction ops arbitrary: ps) (auto simp: rank_of_def split: option.splits)

lemma orders_of_ranked:
  "\<forall>a\<in>set ops. get_order topo a \<noteq> None \<Longrightarrow>
   orders_of topo ops = Some (map (\<lambda>a. (a, rank_of topo a)) ops)"
  by (induction ops) (auto simp: rank_of_def split: option.splits)

lemma runs_hd: "\<exists>h rest. runs limit lo hi rs = (lo, h) # rest \<and> (h = hi \<or> h \<in> set rs)"
proof (induction rs arbitrary: lo hi)
  case Nil
  then show ?case by simp
next
  case (Cons r rs)
  show ?case
  proof (cases "r - hi \<le> limit")
    case True
    then show ?thesis using Cons [of lo r] by auto
  next
    case False
    then show ?thesis by simp
  qed
qed

lemma runs_bounds:
  "sorted (hi # rs) \<Longrightarrow> lo \<le> hi \<Longrightarrow> y \<in> set (runs limit lo hi rs) \<Longrightarrow>
   fst y \<le> snd y \<and> (fst y = lo \<and> hi \<le> snd y \<or> fst y \<in> set rs) \<and> (snd y = hi \<or> snd y \<in> set rs)"
proof (induction rs arbitrary: lo hi)
  case Nil
  then show ?case by auto
next
  case (Cons r rs)
  have s: "sorted (r # rs)" "hi \<le> r" using Cons.prems(1) by auto
  show ?case
  proof (cases "r - hi \<le> limit")
    case True
    then have "y \<in> set (runs limit lo r rs)" using Cons.prems(3) by simp
    from Cons.IH [OF s(1) _ this] Cons.prems(2) s(2) show ?thesis by auto
  next
    case False
    then have "y = (lo, hi) \<or> y \<in> set (runs limit r r rs)" using Cons.prems(3) by auto
    then show ?thesis
    proof
      assume "y = (lo, hi)" then show ?thesis using Cons.prems(2) by simp
    next
      assume "y \<in> set (runs limit r r rs)"
      from Cons.IH [OF s(1) _ this] show ?thesis by auto
    qed
  qed
qed

lemma runs_cover:
  "sorted (hi # rs) \<Longrightarrow> lo \<le> hi \<Longrightarrow> r \<in> set rs \<or> (lo \<le> r \<and> r \<le> hi) \<Longrightarrow>
   \<exists>y\<in>set (runs limit lo hi rs). fst y \<le> r \<and> r \<le> snd y"
proof (induction rs arbitrary: lo hi)
  case Nil
  then show ?case by auto
next
  case (Cons q rs)
  have s: "sorted (q # rs)" "hi \<le> q" using Cons.prems(1) by auto
  show ?case
  proof (cases "q - hi \<le> limit")
    case True
    have "r \<in> set rs \<or> (lo \<le> r \<and> r \<le> q)" using Cons.prems(2,3) s by auto
    from Cons.IH [OF s(1) _ this] Cons.prems(2) s(2) True show ?thesis by auto
  next
    case False
    show ?thesis
    proof (cases "lo \<le> r \<and> r \<le> hi")
      case True
      then show ?thesis using False by auto
    next
      case nin: False
      then have "r \<in> set rs \<or> (q \<le> r \<and> r \<le> q)" using Cons.prems(3) by auto
      from Cons.IH [OF s(1) _ this] False show ?thesis by auto
    qed
  qed
qed

lemma runs_separated:
  "sorted (hi # rs) \<Longrightarrow> lo \<le> hi \<Longrightarrow> 0 \<le> limit \<Longrightarrow>
   sorted_wrt (\<lambda>y z. snd y + limit < fst z) (runs limit lo hi rs)"
proof (induction rs arbitrary: lo hi)
  case Nil
  then show ?case by simp
next
  case (Cons q rs)
  have s: "sorted (q # rs)" "hi \<le> q" using Cons.prems(1) by auto
  show ?case
  proof (cases "q - hi \<le> limit")
    case True
    then show ?thesis using Cons.IH [OF s(1), of lo] Cons.prems s by auto
  next
    case False
    have "snd (lo, hi) + limit < fst z" if "z \<in> set (runs limit q q rs)" for z
      using runs_bounds [OF s(1) _ that, of ] False s(1) by auto
    then show ?thesis using False Cons.IH [OF s(1), of q] Cons.prems(3) by auto
  qed
qed

lemma runs_gaps:
  "set rs \<subseteq> S \<Longrightarrow> (\<forall>v. lo \<le> v \<and> v < hi \<longrightarrow> (\<exists>r\<in>S. v < r \<and> r \<le> v + limit)) \<Longrightarrow>
   y \<in> set (runs limit lo hi rs) \<Longrightarrow> fst y \<le> v \<Longrightarrow> v < snd y \<Longrightarrow>
   \<exists>r\<in>S. v < r \<and> r \<le> v + limit"
proof (induction rs arbitrary: lo hi)
  case Nil
  then show ?case by auto
next
  case (Cons q rs)
  have sub: "set rs \<subseteq> S" and q: "q \<in> S" using Cons.prems(1) by auto
  show ?case
  proof (cases "q - hi \<le> limit")
    case True
    have "\<forall>v. lo \<le> v \<and> v < q \<longrightarrow> (\<exists>r\<in>S. v < r \<and> r \<le> v + limit)"
    proof (intro allI impI)
      fix w assume w: "lo \<le> w \<and> w < q"
      show "\<exists>r\<in>S. w < r \<and> r \<le> w + limit"
      proof (cases "w < hi")
        case True then show ?thesis using Cons.prems(2) w by blast
      next
        case False
        then have "w < q \<and> q \<le> w + limit" using w True by auto
        then show ?thesis using q by blast
      qed
    qed
    moreover have "y \<in> set (runs limit lo q rs)" using Cons.prems(3) True by simp
    ultimately show ?thesis using Cons.IH [OF sub _ _ Cons.prems(4,5)] by blast
  next
    case False
    then have "y = (lo, hi) \<or> y \<in> set (runs limit q q rs)" using Cons.prems(3) by auto
    then show ?thesis
    proof
      assume "y = (lo, hi)"
      then show ?thesis using Cons.prems(2,4,5) by auto
    next
      assume y: "y \<in> set (runs limit q q rs)"
      have "\<forall>v. q \<le> v \<and> v < q \<longrightarrow> (\<exists>r\<in>S. v < r \<and> r \<le> v + limit)" by auto
      from Cons.IH [OF sub this y Cons.prems(4,5)] show ?thesis .
    qed
  qed
qed


text \<open>
  What claim C4 asks of the bands \<open>zs\<close> returned for the consumers \<open>ops\<close>: together they
  are the consumers; the bands are in ascending order of rank, so no consumer is in two of
  them; each band is not empty, holds every consumer whose rank lies between the ranks of two of
  its members, and two of its ranks with none of its ranks between them differ by at most
  \<open>limit\<close>.
\<close>

definition grouped :: "TOPOS \<Rightarrow> op list \<Rightarrow> int \<Rightarrow> op list list \<Rightarrow> bool" where
  "grouped topo ops limit zs \<longleftrightarrow>
     (\<Union>b\<in>set zs. set b) = set ops \<and>
     sorted_wrt (\<lambda>b b'. \<forall>a\<in>set b. \<forall>c\<in>set b'. rank_of topo a < rank_of topo c) zs \<and>
     (\<forall>b\<in>set zs.
        b \<noteq> [] \<and> distinct b \<and>
        (\<forall>a\<in>set b. \<forall>c\<in>set b. \<forall>d\<in>set ops.
           rank_of topo a \<le> rank_of topo d \<and> rank_of topo d \<le> rank_of topo c \<longrightarrow> d \<in> set b) \<and>
        (\<forall>a\<in>set b. \<forall>c\<in>set b.
           rank_of topo a < rank_of topo c \<and>
           (\<forall>d\<in>set b. \<not> (rank_of topo a < rank_of topo d \<and> rank_of topo d < rank_of topo c))
           \<longrightarrow> rank_of topo c - rank_of topo a \<le> limit))"

text \<open>Six consumers with the ranks 20, 1, 12, 2, 10 and 11; two consumers of rank 1.\<close>

definition six_topo :: TOPOS where
  "six_topo =
     \<lparr>get_order = (\<lambda>a. if a < 6 then Some ([20, 1, 12, 2, 10, 11] ! a) else None),
      get_ops = (\<lambda>i. []), topo_size = 21\<rparr>"

definition tied_topo :: TOPOS where
  "tied_topo = \<lparr>get_order = (\<lambda>a. Some 1), get_ops = (\<lambda>i. if i = 1 then [0, 1] else []), topo_size = 2\<rparr>"

lemma set_band_of:
  "set (band_of (map (\<lambda>a. (a, rank_of topo a)) ops) y)
     = {a \<in> set ops. fst y \<le> rank_of topo a \<and> rank_of topo a \<le> snd y}"
  by (auto simp: band_of_def filter_map comp_def)

lemma groupby_runs:
  assumes "\<forall>a\<in>set ops. get_order topo a \<noteq> None"
    and "sort (map (rank_of topo) ops) = x0 # rest"
  shows "groupby topo ops limit
           = Inr (map (band_of (map (\<lambda>a. (a, rank_of topo a)) ops)) (runs limit x0 x0 rest))"
proof -
  have m: "sort (map snd (map (\<lambda>a. (a, rank_of topo a)) ops)) = x0 # rest"
    using assms(2) by (simp add: comp_def)
  show ?thesis
    unfolding groupby_def orders_of_ranked [OF assms(1)] option.case Let_def m
    using merge_intervals_runs [of limit "[]" x0 x0 rest] by simp
qed

lemma groupby_six: "groupby six_topo [0, 1, 2, 3, 4, 5] 5 = Inr [[1, 3], [2, 4, 5], [0]]"
  by (simp add: groupby_def six_topo_def band_of_def)

text \<open>
  Claim C4 holds for every limit that is not negative: for consumers that all have a rank,
  \<open>_groupby\<close> returns bands that are grouped as the claim says, and for the ranks 1, 2, 10,
  11, 12, 20 and limit 5 the bands are those of the ranks 1 and 2, of 10, 11 and 12, and of 20.
\<close>

theorem groupby_bands:
  assumes "ops \<noteq> []" and "ranked topo ops" and "0 \<le> limit"
  shows "(\<exists>zs. groupby topo ops limit = Inr zs \<and> grouped topo ops limit zs) \<and>
         groupby six_topo [0, 1, 2, 3, 4, 5] 5 = Inr [[1, 3], [2, 4, 5], [0]]"
proof -
  have rkd: "\<forall>a\<in>set ops. get_order topo a \<noteq> None"
    using assms(2) by (simp add: ranked_def)
  let ?rk = "rank_of topo"
  let ?ps = "map (\<lambda>a. (a, ?rk a)) ops"
  obtain x0 rest where x: "sort (map ?rk ops) = x0 # rest"
    using assms(1) by (cases "sort (map ?rk ops)") (auto dest: arg_cong [where f = length])
  let ?ys = "runs limit x0 x0 rest"
  let ?zs = "map (band_of ?ps) ?ys"
  have srt: "sorted (x0 # rest)" by (metis x sorted_sort)
  have setx: "set (x0 # rest) = ?rk ` set ops"
    by (metis x set_map set_sort)
  have res: "groupby topo ops limit = Inr ?zs" by (rule groupby_runs [OF rkd x])
  have bnd: "fst y \<le> snd y \<and> fst y \<in> ?rk ` set ops" if "y \<in> set ?ys" for y
    using runs_bounds [OF srt _ that] setx by auto
  have cover: "(\<Union>b\<in>set ?zs. set b) = set ops"
  proof
    show "(\<Union>b\<in>set ?zs. set b) \<subseteq> set ops" by (auto simp: set_band_of)
    show "set ops \<subseteq> (\<Union>b\<in>set ?zs. set b)"
    proof
      fix a assume a: "a \<in> set ops"
      then have "?rk a \<in> set (x0 # rest)" using setx by blast
      then have "?rk a \<in> set rest \<or> (x0 \<le> ?rk a \<and> ?rk a \<le> x0)" by auto
      from runs_cover [OF srt _ this, of limit]
      obtain y where "y \<in> set ?ys" "fst y \<le> ?rk a" "?rk a \<le> snd y" by auto
      then show "a \<in> (\<Union>b\<in>set ?zs. set b)" using a by (auto simp: set_band_of)
    qed
  qed
  have sep: "sorted_wrt (\<lambda>b b'. \<forall>a\<in>set b. \<forall>c\<in>set b'. ?rk a < ?rk c) ?zs"
  proof -
    have "sorted_wrt (\<lambda>y z. snd y + limit < fst z) ?ys"
      by (rule runs_separated [OF srt _ assms(3)]) simp
    then have "sorted_wrt (\<lambda>y z. \<forall>a\<in>set (band_of ?ps y). \<forall>c\<in>set (band_of ?ps z). ?rk a < ?rk c) ?ys"
      by (rule sorted_wrt_mono_rel [rotated]) (use assms(3) in \<open>auto simp: set_band_of\<close>)
    then show ?thesis by (simp add: sorted_wrt_map)
  qed
  have band: "b \<noteq> [] \<and> distinct b \<and>
        (\<forall>a\<in>set b. \<forall>c\<in>set b. \<forall>d\<in>set ops. ?rk a \<le> ?rk d \<and> ?rk d \<le> ?rk c \<longrightarrow> d \<in> set b) \<and>
        (\<forall>a\<in>set b. \<forall>c\<in>set b.
           ?rk a < ?rk c \<and> (\<forall>d\<in>set b. \<not> (?rk a < ?rk d \<and> ?rk d < ?rk c))
           \<longrightarrow> ?rk c - ?rk a \<le> limit)" if "b \<in> set ?zs" for b
  proof -
    from that obtain y where y: "y \<in> set ?ys" and b: "b = band_of ?ps y" by auto
    have sb: "set b = {a \<in> set ops. fst y \<le> ?rk a \<and> ?rk a \<le> snd y}"
      by (simp add: b set_band_of)
    obtain a0 where "a0 \<in> set ops" "?rk a0 = fst y" using bnd [OF y] by auto
    then have "a0 \<in> set b" using bnd [OF y] sb by simp
    then have ne: "b \<noteq> []" by auto
    have di: "distinct b" by (simp add: b band_of_def)
    have iv: "\<forall>a\<in>set b. \<forall>c\<in>set b. \<forall>d\<in>set ops. ?rk a \<le> ?rk d \<and> ?rk d \<le> ?rk c \<longrightarrow> d \<in> set b"
      using sb by auto
    have cs: "?rk c - ?rk a \<le> limit"
      if a: "a \<in> set b" and c: "c \<in> set b" and lt: "?rk a < ?rk c"
        and nb: "\<forall>d\<in>set b. \<not> (?rk a < ?rk d \<and> ?rk d < ?rk c)" for a c
    proof -
      have "fst y \<le> ?rk a" "?rk a < snd y" using a c lt sb by auto
      from runs_gaps [OF _ _ y this, of "set (x0 # rest)"]
      obtain r where r: "r \<in> set (x0 # rest)" "?rk a < r" "r \<le> ?rk a + limit" by auto
      have "r \<in> ?rk ` set ops" using r(1) setx by blast
      then obtain d where d: "d \<in> set ops" "?rk d = r" by auto
      show ?thesis
      proof (cases "r \<le> snd y")
        case True
        then have "d \<in> set b" using d r a sb by auto
        then have "\<not> (?rk a < ?rk d \<and> ?rk d < ?rk c)" using nb by blast
        then show ?thesis using d r by auto
      next
        case False
        then show ?thesis using c sb r by auto
      qed
    qed
    show ?thesis using ne di iv cs by blast
  qed
  have "grouped topo ops limit ?zs"
    unfolding grouped_def using cover sep band by blast
  then have "\<exists>zs. groupby topo ops limit = Inr zs \<and> grouped topo ops limit zs"
    using res by blast
  then show ?thesis using groupby_six by simp
qed

theorem groupby_bands_witness:
  "[0, 1, 2, 3, 4, 5] \<noteq> ([] :: op list) \<and> ranked six_topo [0, 1, 2, 3, 4, 5] \<and> (0::int) \<le> 5 \<and>
   grouped six_topo [0, 1, 2, 3, 4, 5] 5 [[1, 3], [2, 4, 5], [0]]"
proof -
  have h: "ranked six_topo [0, 1, 2, 3, 4, 5]"
    by (simp add: ranked_def six_topo_def)
  have "(\<exists>zs. groupby six_topo [0, 1, 2, 3, 4, 5] 5 = Inr zs \<and> grouped six_topo [0, 1, 2, 3, 4, 5] 5 zs)
          \<and> groupby six_topo [0, 1, 2, 3, 4, 5] 5 = Inr [[1, 3], [2, 4, 5], [0]]"
    by (rule groupby_bands [OF _ h]) simp_all
  then have "grouped six_topo [0, 1, 2, 3, 4, 5] 5 [[1, 3], [2, 4, 5], [0]]"
    by auto
  then show ?thesis using h by simp
qed

text \<open>
  The claim as it is stated, for every limit, fails for a negative one: with limit \<open>-1\<close> two
  consumers of the same rank are not merged into one interval, the interval of their rank is
  listed twice, and both consumers are in both bands.
\<close>

theorem groupby_negative_limit_counterexample:
  "groupby tied_topo [0, 1] (- 1) = Inr [[0, 1], [0, 1]] \<and>
   \<not> grouped tied_topo [0, 1] (- 1) [[0, 1], [0, 1]]"
  by (simp add: groupby_def tied_topo_def band_of_def Let_def grouped_def)

section \<open>The lookaheads of \<open>_sequential_strategy\<close>\<close>

text \<open>The rank of the anchor consumer of a relocation triple.\<close>

definition anchor_rank :: "TOPOS \<Rightarrow> op \<times> op \<times> op \<Rightarrow> int" where
  "anchor_rank topo t = rank_of topo (fst (snd t))"

text \<open>
  The lookahead of an anchor rank \<open>r\<close> among the anchor ranks \<open>rs\<close>: 3 for the least
  rank, and the distance to the next smaller rank otherwise.
\<close>

definition lookahead :: "int list \<Rightarrow> int \<Rightarrow> int" where
  "lookahead rs r = (if r = Min (set rs) then 3 else r - Max (set (filter (\<lambda>q. q < r) rs)))"

lemma keyed_ranked:
  "\<forall>t\<in>set triples. get_order topo (fst (snd t)) \<noteq> None \<Longrightarrow>
   keyed topo triples = Some (map (\<lambda>t. (anchor_rank topo t, t)) triples)"
  by (induction triples) (auto simp: anchor_rank_def rank_of_def split: option.splits)

lemma insort_key_keyed:
  "\<forall>p\<in>set ys. fst p = f (snd p) \<Longrightarrow>
   map snd (insort_key fst (f t, t) ys) = insort_key f t (map snd ys) \<and>
   (\<forall>p\<in>set (insort_key fst (f t, t) ys). fst p = f (snd p))"
  by (induction ys) auto

lemma sort_key_keyed:
  "map snd (sort_key fst (map (\<lambda>t. (f t, t)) ts)) = sort_key f ts \<and>
   (\<forall>p\<in>set (sort_key fst (map (\<lambda>t. (f t, t)) ts)). fst p = f (snd p))"
proof (induction ts)
  case Nil
  then show ?case by simp
next
  case (Cons t ts)
  then show ?case using insort_key_keyed [of "sort_key fst (map (\<lambda>t. (f t, t)) ts)" f t]
    by simp
qed

lemma first_swapins_eq:
  "first_swapins x0 x = map (\<lambda>p. (snd p, 3)) (takeWhile (\<lambda>p. fst p = x0) x)"
  by (induction x) auto

lemma later_swapins_fst: "map fst (later_swapins lb lst xs) = map snd xs"
  by (induction xs arbitrary: lb lst) (auto simp: Let_def)

lemma later_swapins_length: "length (later_swapins lb lst xs) = length xs"
  by (induction xs arbitrary: lb lst) (auto simp: Let_def)

lemma Max_below:
  assumes "finite R" "m \<in> R" "m < r" "\<forall>q\<in>R. q < r \<longrightarrow> q \<le> m"
  shows "Max {q \<in> R. q < r} = m"
  using assms by (intro Max_eqI) auto

lemma later_swapins_ahead:
  assumes "sorted (map fst xs)" and "\<forall>p\<in>set xs. lst \<le> fst p"
    and "lb < lst \<or> (\<forall>p\<in>set xs. lst < fst p)"
    and "finite R" and "fst ` set xs \<subseteq> R" and "lst \<in> R"
    and "lb < lst \<longrightarrow> lb \<in> R \<and> (\<forall>q\<in>R. q < lst \<longrightarrow> q \<le> lb)"
    and "\<forall>q\<in>R. lst < q \<longrightarrow> q \<in> fst ` set xs"
    and "(t, ahead) \<in> set (zip (map fst xs) (map snd (later_swapins lb lst xs)))"
  shows "ahead = t - Max {q \<in> R. q < t}"
  using assms
proof (induction xs arbitrary: lb lst)
  case Nil
  then show ?case by simp
next
  case (Cons xi xs)
  let ?curr = "fst xi"
  let ?lb' = "if ?curr \<noteq> lst then lst else lb"
  let ?lst' = "if ?curr \<noteq> lst then ?curr else lst"
  have le: "lst \<le> ?curr" using Cons.prems(2) by simp
  have srt: "sorted (map fst xs)" "\<forall>p\<in>set xs. ?curr \<le> fst p" using Cons.prems(1) by auto
  have hd_ahead: "?curr - ?lb' = ?curr - Max {q \<in> R. q < ?curr}"
  proof (cases "?curr = lst")
    case True
    then have "lb < lst" using Cons.prems(3) by auto
    then have "Max {q \<in> R. q < lst} = lb"
      using Cons.prems(4,7) by (intro Max_below) auto
    then show ?thesis using True by simp
  next
    case False
    then have lt: "lst < ?curr" using le by simp
    have "\<forall>q\<in>R. q < ?curr \<longrightarrow> q \<le> lst"
    proof (intro ballI impI)
      fix q assume q: "q \<in> R" "q < ?curr"
      show "q \<le> lst"
      proof (rule ccontr)
        assume "\<not> q \<le> lst"
        then have "q \<in> fst ` set (xi # xs)" using Cons.prems(8) q by auto
        then have "?curr \<le> q" using srt(2) by auto
        then show False using q by simp
      qed
    qed
    then have "Max {q \<in> R. q < ?curr} = lst"
      using Cons.prems(4,6) lt by (intro Max_below) auto
    then show ?thesis using False by simp
  qed
  from Cons.prems(9) have "(t, ahead) = (?curr, ?curr - ?lb') \<or>
     (t, ahead) \<in> set (zip (map fst xs) (map snd (later_swapins ?lb' ?lst' xs)))"
    by (auto simp: Let_def)
  then show ?case
  proof
    assume "(t, ahead) = (?curr, ?curr - ?lb')"
    then show ?thesis using hd_ahead by simp
  next
    assume rest: "(t, ahead) \<in> set (zip (map fst xs) (map snd (later_swapins ?lb' ?lst' xs)))"
    show ?thesis
    proof (cases "?curr = lst")
      case True
      then have l: "lb < lst" using Cons.prems(3) by auto
      have "ahead = t - Max {q \<in> R. q < t}"
      proof (rule Cons.IH [of lst lb])
        show "sorted (map fst xs)" by (rule srt)
        show "\<forall>p\<in>set xs. lst \<le> fst p" using Cons.prems(2) by simp
        show "lb < lst \<or> (\<forall>p\<in>set xs. lst < fst p)" using l by simp
        show "finite R" by (rule Cons.prems(4))
        show "fst ` set xs \<subseteq> R" using Cons.prems(5) by auto
        show "lst \<in> R" by (rule Cons.prems(6))
        show "lb < lst \<longrightarrow> lb \<in> R \<and> (\<forall>q\<in>R. q < lst \<longrightarrow> q \<le> lb)" by (rule Cons.prems(7))
        show "\<forall>q\<in>R. lst < q \<longrightarrow> q \<in> fst ` set xs" using Cons.prems(8) True by auto
        show "(t, ahead) \<in> set (zip (map fst xs) (map snd (later_swapins lb lst xs)))"
          using rest True by simp
      qed
      then show ?thesis .
    next
      case False
      then have lt: "lst < ?curr" using le by simp
      have below: "\<forall>q\<in>R. q < ?curr \<longrightarrow> q \<le> lst"
      proof (intro ballI impI)
        fix q assume q: "q \<in> R" "q < ?curr"
        show "q \<le> lst"
        proof (rule ccontr)
          assume "\<not> q \<le> lst"
          then have "q \<in> fst ` set (xi # xs)" using Cons.prems(8) q by auto
          then have "?curr \<le> q" using srt(2) by auto
          then show False using q by simp
        qed
      qed
      have "ahead = t - Max {q \<in> R. q < t}"
      proof (rule Cons.IH [of ?curr lst])
        show "sorted (map fst xs)" by (rule srt)
        show "\<forall>p\<in>set xs. ?curr \<le> fst p" by (rule srt)
        show "lst < ?curr \<or> (\<forall>p\<in>set xs. ?curr < fst p)" using lt by simp
        show "finite R" by (rule Cons.prems(4))
        show "fst ` set xs \<subseteq> R" using Cons.prems(5) by auto
        show "?curr \<in> R" using Cons.prems(5) by auto
        show "lst < ?curr \<longrightarrow> lst \<in> R \<and> (\<forall>q\<in>R. q < ?curr \<longrightarrow> q \<le> lst)"
          using Cons.prems(6) below by simp
        show "\<forall>q\<in>R. ?curr < q \<longrightarrow> q \<in> fst ` set xs"
        proof (intro ballI impI)
          fix q assume q: "q \<in> R" "?curr < q"
          then have "q \<in> fst ` set (xi # xs)" using Cons.prems(8) lt by auto
          then show "q \<in> fst ` set xs" using q by auto
        qed
        show "(t, ahead) \<in> set (zip (map fst xs) (map snd (later_swapins lst ?curr xs)))"
          using rest False by simp
      qed
      then show ?thesis .
    qed
  qed
qed


lemma dropWhile_above:
  "sorted (map fst x) \<Longrightarrow> \<forall>p\<in>set x. x0 \<le> fst p \<Longrightarrow>
   p \<in> set (dropWhile (\<lambda>p. fst p = x0) x) \<Longrightarrow> x0 < (fst p :: int)"
  by (induction x) (auto split: if_splits)

text \<open>
  What claim C3 asks of the scheduled calls: a triple with a larger anchor rank never has a
  smaller lookahead.
\<close>

definition nondecreasing_lookaheads :: "TOPOS \<Rightarrow> ((op \<times> op \<times> op) \<times> int) list \<Rightarrow> bool" where
  "nondecreasing_lookaheads topo calls \<longleftrightarrow>
     (\<forall>c\<in>set calls. \<forall>c'\<in>set calls.
        anchor_rank topo (fst c) < anchor_rank topo (fst c') \<longrightarrow> snd c \<le> snd c')"

text \<open>
  Claim C3, as far as it holds. When every anchor has a rank, \<open>_sequential_strategy\<close>
  schedules the triples in the order of their anchor ranks (triples of equal rank in their
  original order); the triples of the least anchor rank get the lookahead 3 and every other
  triple gets the difference between its anchor rank and the next smaller anchor rank.
\<close>

theorem sequential_lookaheads:
  assumes ne: "triples \<noteq> []" and rkd: "ranked topo (map (\<lambda>t. fst (snd t)) triples)"
  shows "sequential_calls topo triples =
           Inr (map (\<lambda>t. (t, lookahead (map (anchor_rank topo) triples) (anchor_rank topo t)))
                  (sort_key (anchor_rank topo) triples))"
proof -
  have rk: "\<forall>t\<in>set triples. get_order topo (fst (snd t)) \<noteq> None"
    using rkd by (simp add: ranked_def)
  let ?f = "anchor_rank topo"
  let ?rs = "map ?f triples"
  let ?ks = "map (\<lambda>t. (?f t, t)) triples"
  let ?x = "sort_key fst ?ks"
  let ?R = "set ?rs"
  have kx: "map snd ?x = sort_key ?f triples" and kf: "\<forall>p\<in>set ?x. fst p = ?f (snd p)"
    using sort_key_keyed [of ?f triples] by auto
  have setx: "fst ` set ?x = ?R" by (simp add: image_image)
  have "length ?x = length triples" by simp
  then have "?x \<noteq> []" using ne by (metis length_0_conv)
  then obtain x0p rest where x: "?x = x0p # rest" by (cases ?x) auto
  let ?lo = "fst x0p"
  let ?P = "\<lambda>p. fst p = ?lo"
  let ?tw = "takeWhile ?P ?x"
  let ?dw = "dropWhile ?P ?x"
  have srt: "sorted (map fst ?x)" by (rule sorted_sort_key)
  have x0le: "\<forall>p\<in>set ?x. ?lo \<le> fst p" using srt x by auto
  have "x0p \<in> set ?x" unfolding x by simp
  then have "?lo \<in> fst ` set ?x" by (rule imageI)
  then have x0R: "?lo \<in> ?R" unfolding setx .
  have minR: "Min ?R = ?lo"
    using x0le x0R setx by (intro Min_eqI) auto
  have tw_ne: "?tw \<noteq> []" using x by simp
  have k: "length (first_swapins ?lo ?x) - 1 + 1 = length ?tw"
    using tw_ne by (cases ?tw) (auto simp: first_swapins_eq)
  have dr: "drop (length ?tw) ?x = ?dw" by (simp add: dropWhile_eq_drop)
  have res: "sequential_calls topo triples
               = Inr (first_swapins ?lo ?x @ later_swapins ?lo ?lo ?dw)"
    unfolding sequential_calls_def keyed_ranked [OF rk] option.case Let_def x list.case
    using k dr x by simp
  let ?h = "\<lambda>p. (snd p, lookahead ?rs (fst p))"
  have firsts: "first_swapins ?lo ?x = map ?h ?tw"
  proof -
    have "\<forall>p\<in>set ?tw. lookahead ?rs (fst p) = 3"
      using minR by (auto simp: lookahead_def dest: set_takeWhileD)
    then show ?thesis by (simp add: first_swapins_eq)
  qed
  have dw_gt: "\<forall>p\<in>set ?dw. ?lo < fst p"
    using dropWhile_above [OF srt x0le] by blast
  have later: "later_swapins ?lo ?lo ?dw = map ?h ?dw"
  proof (rule nth_equalityI)
    show "length (later_swapins ?lo ?lo ?dw) = length (map ?h ?dw)"
      by (simp add: later_swapins_length)
  next
    fix i assume "i < length (later_swapins ?lo ?lo ?dw)"
    then have i: "i < length ?dw" by (simp add: later_swapins_length)
    let ?c = "later_swapins ?lo ?lo ?dw ! i"
    have "fst ?c = map fst (later_swapins ?lo ?lo ?dw) ! i"
      using i by (simp add: later_swapins_length)
    also have "\<dots> = map snd ?dw ! i" by (simp only: later_swapins_fst)
    also have "\<dots> = snd (?dw ! i)" using i by simp
    finally have f1: "fst ?c = snd (?dw ! i)" .
    have "(fst (?dw ! i), snd ?c) \<in> set (zip (map fst ?dw) (map snd (later_swapins ?lo ?lo ?dw)))"
      using i by (auto simp: in_set_zip later_swapins_length intro!: exI [of _ i])
    then have "snd ?c = fst (?dw ! i) - Max {q \<in> ?R. q < fst (?dw ! i)}"
    proof (rule later_swapins_ahead [rotated -1])
      have "sorted (map fst (?tw @ ?dw))" using srt by (simp only: takeWhile_dropWhile_id)
      then show "sorted (map fst ?dw)" by (simp only: map_append sorted_append)
      show "\<forall>p\<in>set ?dw. ?lo \<le> fst p" using dw_gt by auto
      show "?lo < ?lo \<or> (\<forall>p\<in>set ?dw. ?lo < fst p)" using dw_gt by simp
      show "finite ?R" by simp
      show "fst ` set ?dw \<subseteq> ?R" using setx set_dropWhileD by fastforce
      show "?lo \<in> ?R" by (rule x0R)
      show "?lo < ?lo \<longrightarrow> ?lo \<in> ?R \<and> (\<forall>q\<in>?R. q < ?lo \<longrightarrow> q \<le> ?lo)" by simp
      show "\<forall>q\<in>?R. ?lo < q \<longrightarrow> q \<in> fst ` set ?dw"
      proof (intro ballI impI)
        fix q assume q: "q \<in> ?R" "?lo < q"
        then have "q \<in> fst ` set ?x" unfolding setx by simp
        then obtain p where p: "p \<in> set ?x" "fst p = q" by (elim imageE) simp
        have "set ?x = set ?tw \<union> set ?dw"
          by (simp only: set_append [symmetric] takeWhile_dropWhile_id)
        then have "p \<in> set ?tw \<or> p \<in> set ?dw"
          using p(1) by blast
        then have "p \<in> set ?dw" using q p(2) by (auto dest: set_takeWhileD)
        then show "q \<in> fst ` set ?dw" using p(2) by blast
      qed
    qed
    moreover have "fst (?dw ! i) \<noteq> Min ?R"
    proof -
      have "?dw ! i \<in> set ?dw" using i by (rule nth_mem)
      then have "?lo < fst (?dw ! i)" using dw_gt by blast
      then show ?thesis unfolding minR by simp
    qed
    ultimately have "snd ?c = lookahead ?rs (fst (?dw ! i))"
      by (simp add: lookahead_def)
    then show "?c = map ?h ?dw ! i" using f1 i by (simp add: prod_eq_iff)
  qed
  have "first_swapins ?lo ?x @ later_swapins ?lo ?lo ?dw = map ?h (?tw @ ?dw)"
    by (simp only: firsts later map_append)
  also have "\<dots> = map ?h ?x" by (simp only: takeWhile_dropWhile_id)
  also have "\<dots> = map (\<lambda>t. (t, lookahead ?rs (?f t))) (map snd ?x)"
    using kf by (simp add: comp_def)
  finally show ?thesis using res kx by simp
qed

theorem sequential_lookaheads_witness:
  "[(0, 7, 10), (0, 2, 8), (1, 2, 9), (0, 5, 11)] \<noteq> ([] :: (op \<times> op \<times> op) list) \<and>
   ranked chain_topo (map (\<lambda>t. fst (snd t)) [(0, 7, 10), (0, 2, 8), (1, 2, 9), (0, 5, 11)]) \<and>
   sequential_calls chain_topo [(0, 7, 10), (0, 2, 8), (1, 2, 9), (0, 5, 11)]
     = Inr [((0, 2, 8), 3), ((1, 2, 9), 3), ((0, 5, 11), 3), ((0, 7, 10), 2)]"
proof -
  let ?ts = "[(0, 7, 10), (0, 2, 8), (1, 2, 9), (0, 5, 11)] :: (op \<times> op \<times> op) list"
  have h: "ranked chain_topo (map (\<lambda>t. fst (snd t)) ?ts)"
    by (simp add: ranked_def chain_topo_def)
  have e: "map (\<lambda>t. (t, lookahead (map (anchor_rank chain_topo) ?ts) (anchor_rank chain_topo t)))
             (sort_key (anchor_rank chain_topo) ?ts)
           = [((0, 2, 8), 3), ((1, 2, 9), 3), ((0, 5, 11), 3), ((0, 7, 10), 2)]"
    by code_simp
  have "sequential_calls chain_topo ?ts
          = Inr [((0, 2, 8), 3), ((1, 2, 9), 3), ((0, 5, 11), 3), ((0, 7, 10), 2)]"
    using sequential_lookaheads [OF _ h] e by simp
  then show ?thesis using h by simp
qed

text \<open>
  The lookaheads are not monotone: for anchors of the ranks 2, 6 and 7 they are 3, 4 and 1.
\<close>

theorem sequential_lookaheads_counterexample:
  "sequential_calls chain_topo [(0, 2, 8), (0, 6, 9), (0, 7, 10)]
     = Inr [((0, 2, 8), 3), ((0, 6, 9), 4), ((0, 7, 10), 1)] \<and>
   \<not> nondecreasing_lookaheads chain_topo [((0, 2, 8), 3), ((0, 6, 9), 4), ((0, 7, 10), 1)]"
  by code_simp

section \<open>Candidate selection\<close>

text \<open>
  A tensor passes the shape filter when its shape rank is known and greater than 1. The far
  consumers of a tensor are those whose rank exceeds the producer's rank \<open>rp\<close> by more than
  the threshold. \<open>all_ranked\<close> says that the consumers of every tensor that passes the
  shape filter have a rank.
\<close>

definition eligible :: "graph \<Rightarrow> tensor \<Rightarrow> bool" where
  "eligible g t = (case ndims g t of None \<Rightarrow> False | Some n \<Rightarrow> 1 < n)"

definition far_consumers :: "TOPOS \<Rightarrow> graph \<Rightarrow> int \<Rightarrow> int \<Rightarrow> tensor \<Rightarrow> op list" where
  "far_consumers topo g rp threshold t =
     filter (\<lambda>c. rank_of topo c - rp > threshold) (consumers g t)"

definition all_ranked :: "TOPOS \<Rightarrow> graph \<Rightarrow> tensor list \<Rightarrow> bool" where
  "all_ranked topo g ts \<longleftrightarrow>
     (\<forall>t\<in>set ts. eligible g t \<longrightarrow> (\<forall>c\<in>set (consumers g t). get_order topo c \<noteq> None))"

lemma concatenate_unique_distinct:
  "distinct (la @ lb) \<Longrightarrow> concatenate_unique la lb = la @ lb"
  by (induction la lb rule: concatenate_unique.induct) auto

lemma get_consuming_ops_single: "get_consuming_ops g [t] = consumers g t"
  using concatenate_unique_distinct [of "[]" "consumers g t"]
  by (simp add: get_consuming_ops_def consumers_def)

lemma filter_cands_ranked:
  "\<forall>c\<in>set cs. get_order topo c \<noteq> None \<Longrightarrow>
   filter_cands topo (Some rp) threshold cs
     = Inr (filter (\<lambda>c. rank_of topo c - rp > threshold) cs)"
  by (induction cs) (auto simp: rank_of_def split: option.splits)

lemma filter_cands_unranked:
  "\<exists>c\<in>set cs. get_order topo c = None \<Longrightarrow> filter_cands topo (Some rp) threshold cs = Inl TypeError"
proof (induction cs)
  case Nil
  then show ?case by simp
next
  case (Cons c cs)
  show ?case
  proof (cases "get_order topo c")
    case None
    then show ?thesis by simp
  next
    case (Some rc)
    then have "\<exists>c\<in>set cs. get_order topo c = None" using Cons.prems by auto
    then show ?thesis using Cons.IH Some by simp
  qed
qed

lemma select_dests_ranked:
  "all_ranked topo g ts \<Longrightarrow>
   select_dests topo g (Some rp) threshold ts
     = Inr (map (\<lambda>t. (t, far_consumers topo g rp threshold t))
              (filter (\<lambda>t. eligible g t \<and> far_consumers topo g rp threshold t \<noteq> []) ts))"
proof (induction ts)
  case Nil
  then show ?case by simp
next
  case (Cons t ts)
  have rest: "all_ranked topo g ts" using Cons.prems by (simp add: all_ranked_def)
  note IH = Cons.IH [OF rest]
  show ?case
  proof (cases "eligible g t")
    case False
    then show ?thesis using IH by (auto simp: eligible_def split: option.splits)
  next
    case True
    then obtain n where n: "ndims g t = Some n" "1 < n"
      by (auto simp: eligible_def split: option.splits)
    have "\<forall>c\<in>set (consumers g t). get_order topo c \<noteq> None"
      using Cons.prems True by (simp add: all_ranked_def)
    then have fc: "filter_cands topo (Some rp) threshold (consumers g t)
                     = Inr (far_consumers topo g rp threshold t)"
      by (simp add: filter_cands_ranked far_consumers_def)
    show ?thesis using n True IH fc by (simp add: get_consuming_ops_single)
  qed
qed

lemma select_dests_unranked:
  "\<not> all_ranked topo g ts \<Longrightarrow> select_dests topo g (Some rp) threshold ts = Inl TypeError"
proof (induction ts)
  case Nil
  then show ?case by (simp add: all_ranked_def)
next
  case (Cons t ts)
  show ?case
  proof (cases "eligible g t")
    case False
    then have "\<not> all_ranked topo g ts" using Cons.prems by (simp add: all_ranked_def)
    then show ?thesis using Cons.IH False by (auto simp: eligible_def split: option.splits)
  next
    case True
    then obtain n where n: "ndims g t = Some n" "1 < n"
      by (auto simp: eligible_def split: option.splits)
    show ?thesis
    proof (cases "\<exists>c\<in>set (consumers g t). get_order topo c = None")
      case True
      then have "filter_cands topo (Some rp) threshold (consumers g t) = Inl TypeError"
        by (rule filter_cands_unranked)
      then show ?thesis using n by (simp add: get_consuming_ops_single)
    next
      case False
      then have fc: "filter_cands topo (Some rp) threshold (consumers g t)
                     = Inr (far_consumers topo g rp threshold t)"
        by (simp add: filter_cands_ranked far_consumers_def)
      have "\<not> all_ranked topo g ts" using Cons.prems False by (auto simp: all_ranked_def)
      then have "select_dests topo g (Some rp) threshold ts = Inl TypeError" by (rule Cons.IH)
      then show ?thesis using n fc by (simp add: get_consuming_ops_single)
    qed
  qed
qed

text \<open>
  A producer of rank 10 whose output is read by four consumers, of the ranks 11, 12, 15 and 20.
\<close>

definition fan_graph :: graph where
  "fan_graph =
     [node ''p'' ''MatMul'' [], node ''c1'' ''Relu'' [(0, 0)], node ''c2'' ''Relu'' [(0, 0)],
      node ''c3'' ''Relu'' [(0, 0)], node ''c4'' ''Relu'' [(0, 0)]]"

definition fan_topo :: TOPOS where
  "fan_topo =
     \<lparr>get_order = (\<lambda>a. if a < 5 then Some ([10, 11, 12, 15, 20] ! a) else None),
      get_ops = (\<lambda>i. []), topo_size = 21\<rparr>"

lemma fan: "select_dests fan_topo fan_graph (get_order fan_topo 0) 3 (op_outputs fan_graph 0)
              = Inr [((0, 0), [3, 4])]"
  by code_simp

text \<open>
  Claim C6. For a producer \<open>p\<close> of rank \<open>rp\<close> whose examined consumers all have a rank,
  the first loop of \<open>_insert_swap_nodes\<close> returns a dictionary \<open>ts_dests\<close> with each
  tensor at most once, in which \<open>t\<close> is bound to \<open>C\<close> if and only if \<open>t\<close> is an output
  of \<open>p\<close> whose shape rank is known and greater than 1, \<open>C\<close> is the list of its far
  consumers, and \<open>C\<close> is not empty. The far consumers are the consumers \<open>c\<close> with
  \<open>rank c - rp > threshold\<close>, strictly. With a producer of rank 10, threshold 3 and
  consumers of the ranks 11, 12, 15 and 20, the candidates are the consumers of the ranks 15
  and 20 (operations 3 and 4).
\<close>

theorem candidate_selection:
  assumes "get_order topo p = Some rp" and "all_ranked topo g (op_outputs g p)"
  shows "(\<exists>ts_dests.
            select_dests topo g (get_order topo p) threshold (op_outputs g p) = Inr ts_dests \<and>
            distinct (map fst ts_dests) \<and>
            (\<forall>t C. (t, C) \<in> set ts_dests \<longleftrightarrow>
               t \<in> set (op_outputs g p) \<and> eligible g t \<and>
               C = far_consumers topo g rp threshold t \<and> C \<noteq> [])) \<and>
         (\<forall>t. set (far_consumers topo g rp threshold t)
                = {c \<in> set (consumers g t). threshold < rank_of topo c - rp}) \<and>
         select_dests fan_topo fan_graph (get_order fan_topo 0) 3 (op_outputs fan_graph 0)
           = Inr [((0, 0), [3, 4])]"
proof -
  let ?sel = "map (\<lambda>t. (t, far_consumers topo g rp threshold t))
              (filter (\<lambda>t. eligible g t \<and> far_consumers topo g rp threshold t \<noteq> []) (op_outputs g p))"
  have r: "select_dests topo g (get_order topo p) threshold (op_outputs g p) = Inr ?sel"
    using select_dests_ranked [OF assms(2)] assms(1) by simp
  have d: "distinct (op_outputs g p)" by (simp add: op_outputs_def distinct_map inj_on_def)
  have "distinct (map fst ?sel)" using d by (simp add: comp_def)
  moreover have "\<forall>t C. (t, C) \<in> set ?sel \<longleftrightarrow>
               t \<in> set (op_outputs g p) \<and> eligible g t \<and>
               C = far_consumers topo g rp threshold t \<and> C \<noteq> []"
    by auto
  moreover have "\<forall>t. set (far_consumers topo g rp threshold t)
                = {c \<in> set (consumers g t). threshold < rank_of topo c - rp}"
    by (auto simp: far_consumers_def)
  ultimately show ?thesis using r fan by blast
qed


theorem candidate_selection_witness:
  "get_order fan_topo 0 = Some 10 \<and> all_ranked fan_topo fan_graph (op_outputs fan_graph 0) \<and>
   (\<exists>ts_dests.
      select_dests fan_topo fan_graph (get_order fan_topo 0) 3 (op_outputs fan_graph 0) = Inr ts_dests \<and>
      (((0, 0), [3, 4]) \<in> set ts_dests \<longleftrightarrow>
         (0, 0) \<in> set (op_outputs fan_graph 0) \<and> eligible fan_graph (0, 0) \<and>
         [3, 4] = far_consumers fan_topo fan_graph 10 3 (0, 0) \<and> [3, 4] \<noteq> ([] :: op list)))"
proof -
  have h1: "get_order fan_topo 0 = Some 10" by (simp add: fan_topo_def)
  have h2: "all_ranked fan_topo fan_graph (op_outputs fan_graph 0)" by code_simp
  show ?thesis using candidate_selection [OF h1 h2, of 3] h1 h2 by blast
qed

text \<open>Logging changes neither the graph nor the threshold.\<close>

lemma the_graph_log_info [simp]: "the_graph (log_info self m l) = the_graph self"
  by (simp add: log_info_def the_graph_def)

lemma swapout_threshold_log_info [simp]:
  "swapout_threshold (log_info self m l) = swapout_threshold self"
  by (simp add: log_info_def)

text \<open>
  An order index that has no rank for the last consumer of the fan graph, and an object as the
  constructor leaves it, with a graph and a threshold.
\<close>

definition partial_topo :: TOPOS where
  "partial_topo =
     \<lparr>get_order = (\<lambda>a. if a < 4 then Some ([10, 11, 12, 15] ! a) else None),
      get_ops = (\<lambda>i. []), topo_size = 16\<rparr>"

definition blank :: "graph \<Rightarrow> int \<Rightarrow> LMS" where
  "blank g threshold =
     \<lparr>graph = Some g, excl_scopes = [], incl_scopes = [], excl_types = unused_types,
      incl_types = {}, swapout_threshold = threshold, swapin_groupby = 5, swapin_ahead = - 1,
      sync_mode = 0, excl_ops = {}, incl_ops = {}, debug = False, debug_level = 1,
      swapout_ops = {}, swapin_ops = {}, ops_dict = Map.empty, ops_triples = [], logged = []\<rparr>"

text \<open>
  Claim C9. A producer without a rank is skipped by the traversal without any effect. For a
  producer with a rank, the candidate selection returns a result exactly when every consumer
  of every output that passes the shape filter has a rank; when one of them has none,
  \<open>_insert_swap_nodes\<close> raises \<open>TypeError\<close>, and so does the traversal's visit of a
  producer that is neither excluded nor left out by the inclusion filter.
\<close>

theorem selection_needs_ranked_consumers:
  "(get_order topo p = None \<longrightarrow> visit topo self p = Inr self) \<and>
   (get_order topo p \<noteq> None \<longrightarrow>
      ((\<exists>ts_dests. select_dests topo (the_graph self) (get_order topo p) (swapout_threshold self)
                      (op_outputs (the_graph self) p) = Inr ts_dests)
         \<longleftrightarrow> all_ranked topo (the_graph self) (op_outputs (the_graph self) p)) \<and>
      (\<not> all_ranked topo (the_graph self) (op_outputs (the_graph self) p) \<longrightarrow>
         insert_swap_nodes topo self p = Inl TypeError \<and>
         (p \<notin> excl_ops self \<and> (incl_ops self = {} \<or> p \<in> incl_ops self)
            \<longrightarrow> visit topo self p = Inl TypeError)))"
proof (intro conjI impI)
  assume "get_order topo p = None"
  then show "visit topo self p = Inr self" by (simp add: visit_def)
next
  assume "get_order topo p \<noteq> None"
  then obtain rp where rp: "get_order topo p = Some rp" by auto
  let ?g = "the_graph self"
  show "(\<exists>ts_dests. select_dests topo ?g (get_order topo p) (swapout_threshold self)
                      (op_outputs ?g p) = Inr ts_dests)
         \<longleftrightarrow> all_ranked topo ?g (op_outputs ?g p)"
  proof (cases "all_ranked topo ?g (op_outputs ?g p)")
    case True
    then show ?thesis using select_dests_ranked [OF True, of rp] rp by simp
  next
    case False
    then show ?thesis using select_dests_unranked [OF False, of rp] rp by simp
  qed
next
  assume "get_order topo p \<noteq> None"
  then obtain rp where rp: "get_order topo p = Some rp" by auto
  assume nr: "\<not> all_ranked topo (the_graph self) (op_outputs (the_graph self) p)"
  show "insert_swap_nodes topo self p = Inl TypeError"
    using select_dests_unranked [OF nr, of rp] rp by (simp add: insert_swap_nodes_def Let_def)
next
  assume "get_order topo p \<noteq> None"
  then obtain rp where rp: "get_order topo p = Some rp" by auto
  assume nr: "\<not> all_ranked topo (the_graph self) (op_outputs (the_graph self) p)"
  assume sel: "p \<notin> excl_ops self \<and> (incl_ops self = {} \<or> p \<in> incl_ops self)"
  have "insert_swap_nodes topo self p = Inl TypeError"
    using select_dests_unranked [OF nr, of rp] rp by (simp add: insert_swap_nodes_def Let_def)
  then show "visit topo self p = Inl TypeError" using sel rp by (auto simp: visit_def)
qed

theorem selection_needs_ranked_consumers_witness:
  "get_order partial_topo 4 = None \<and> visit partial_topo (blank fan_graph 3) 4 = Inr (blank fan_graph 3) \<and>
   get_order partial_topo 0 \<noteq> None \<and>
   \<not> all_ranked partial_topo (the_graph (blank fan_graph 3)) (op_outputs (the_graph (blank fan_graph 3)) 0) \<and>
   0 \<notin> excl_ops (blank fan_graph 3) \<and> (incl_ops (blank fan_graph 3) = {} \<or> 0 \<in> incl_ops (blank fan_graph 3)) \<and>
   visit partial_topo (blank fan_graph 3) 0 = Inl TypeError"
proof -
  have h1: "get_order partial_topo 4 = None" "get_order partial_topo 0 \<noteq> None"
    by (simp_all add: partial_topo_def)
  have g: "the_graph (blank fan_graph 3) = fan_graph" by (simp add: the_graph_def blank_def)
  have h2: "\<not> all_ranked partial_topo fan_graph (op_outputs fan_graph 0)" by code_simp
  have h3: "0 \<notin> excl_ops (blank fan_graph 3)" "incl_ops (blank fan_graph 3) = {}"
    by (simp_all add: blank_def)
  show ?thesis
    using selection_needs_ranked_consumers [of partial_topo 4 "blank fan_graph 3"]
      selection_needs_ranked_consumers [of partial_topo 0 "blank fan_graph 3"] h1 h2 h3 g
    by simp
qed

section \<open>The search for a trigger\<close>

text \<open>
  \<open>b\<close> is forward-reachable from \<open>a\<close>: a path of data edges leads from \<open>a\<close> to \<open>b\<close>.
  The forward walk of the graph library computes exactly the operations reachable from its seed.
\<close>

definition reaches :: "graph \<Rightarrow> op \<Rightarrow> op \<Rightarrow> bool" where
  "reaches g a b \<longleftrightarrow> (a, b) \<in> {(x, y). y \<in> set (fanouts g x)}\<^sup>*"

lemma forward_step_fanouts:
  "set (forward_step g seen) = set seen \<union> (\<Union>a\<in>set seen. set (fanouts g a))"
  by (simp add: set_forward_step fanouts_def)

lemma forward_walk_reaches:
  "set (forward_walk g seen) = {b. \<exists>a\<in>set seen. reaches g a b}"
proof (induction g seen rule: forward_walk.induct)
  case (1 g seen)
  let ?E = "{(x, y). y \<in> set (fanouts g x)}"
  show ?case
  proof (cases "set (forward_step g seen) \<subseteq> set seen")
    case True
    have closed: "b \<in> set seen" if "a \<in> set seen" "(a, b) \<in> ?E\<^sup>*" for a b
      using that(2,1)
    proof (induction rule: rtrancl_induct)
      case base
      then show ?case by simp
    next
      case (step y z)
      then have "z \<in> set (forward_step g seen)" by (auto simp: forward_step_fanouts)
      then show ?case using True by blast
    qed
    have "set seen = {b. \<exists>a\<in>set seen. reaches g a b}"
      using closed by (auto simp: reaches_def)
    then show ?thesis using True by (simp add: forward_walk.simps [of g seen])
  next
    case False
    have "{b. \<exists>a\<in>set (forward_step g seen). reaches g a b} = {b. \<exists>a\<in>set seen. reaches g a b}"
    proof (intro set_eqI iffI; clarify)
      fix b a assume a: "a \<in> set (forward_step g seen)" and r: "reaches g a b"
      from a consider "a \<in> set seen" | c where "c \<in> set seen" "a \<in> set (fanouts g c)"
        by (auto simp: forward_step_fanouts)
      then show "\<exists>a\<in>set seen. reaches g a b"
      proof cases
        case 1
        then show ?thesis using r by blast
      next
        case 2
        then have "(c, a) \<in> ?E" by simp
        then have "reaches g c b" using r unfolding reaches_def
          by (rule converse_rtrancl_into_rtrancl)
        then show ?thesis using 2(1) by blast
      qed
    next
      fix b a assume "a \<in> set seen" "reaches g a b"
      then show "\<exists>a\<in>set (forward_step g seen). reaches g a b"
        by (auto simp: forward_step_fanouts)
    qed
    then show ?thesis using False 1 by (simp add: forward_walk.simps [of g seen])
  qed
qed

lemma ge_get_forward_walk_ops_reaches:
  "b \<in> set (ge_get_forward_walk_ops g a) \<longleftrightarrow> reaches g a b"
  by (simp add: ge_get_forward_walk_ops_def forward_walk_reaches)

text \<open>\<open>contains\<close> is the substring test.\<close>

lemma startswith_prefix: "startswith s p \<longleftrightarrow> (\<exists>post. s = p @ post)"
  by (induction s p rule: startswith.induct) auto

lemma contains_substring: "contains s sub \<longleftrightarrow> (\<exists>pre post. s = pre @ sub @ post)"
proof (induction s)
  case Nil
  then show ?case by auto
next
  case (Cons c s)
  show ?case
  proof
    assume "contains (c # s) sub"
    then consider "startswith (c # s) sub" | "contains s sub" by auto
    then show "\<exists>pre post. c # s = pre @ sub @ post"
    proof cases
      case 1
      then obtain post where "c # s = sub @ post" by (auto simp: startswith_prefix)
      then have "c # s = [] @ sub @ post" by simp
      then show ?thesis by blast
    next
      case 2
      then obtain pre post where "s = pre @ sub @ post" using Cons by auto
      then have "c # s = (c # pre) @ sub @ post" by simp
      then show ?thesis by blast
    qed
  next
    assume "\<exists>pre post. c # s = pre @ sub @ post"
    then obtain pre post where e: "c # s = pre @ sub @ post" by auto
    show "contains (c # s) sub"
    proof (cases pre)
      case Nil
      then have "startswith (c # s) sub" using e by (auto simp: startswith_prefix)
      then show ?thesis by simp
    next
      case (Cons d pre')
      then have "s = pre' @ sub @ post" using e by simp
      then have "contains s sub" using Cons.IH by blast
      then show ?thesis by simp
    qed
  qed
qed


text \<open>
  The cache \<open>_ops_dict\<close> is coherent when each of its entries is the forward walk of the
  graph as it is now. The candidates for a trigger at rank \<open>i\<close> are the operations of that
  rank from which \<open>src_op\<close> is reached and whose name does not contain \<open>/cond/\<close>.
\<close>

definition coherent :: "LMS \<Rightarrow> bool" where
  "coherent self \<longleftrightarrow>
     (\<forall>a r. ops_dict self a = Some r \<longrightarrow> r = ge_get_forward_walk_ops (the_graph self) a)"

definition trigger_candidates :: "TOPOS \<Rightarrow> graph \<Rightarrow> op \<Rightarrow> int \<Rightarrow> op list" where
  "trigger_candidates topo g src_op i =
     filter (\<lambda>a. \<not> contains (op_name (g ! a)) ''/cond/'')
       (filter (\<lambda>a. src_op \<in> set (ge_get_forward_walk_ops g a)) (get_ops topo i))"

lemma the_graph_ops_dict [simp]: "the_graph (self\<lparr>ops_dict := d\<rparr>) = the_graph self"
  by (simp add: the_graph_def)

lemma get_forward_walk_ops_coherent:
  assumes "coherent self" and "get_forward_walk_ops self a True = (self', w)"
  shows "w = ge_get_forward_walk_ops (the_graph self) a \<and> coherent self' \<and>
         self' = self\<lparr>ops_dict := ops_dict self'\<rparr>"
proof (cases "ops_dict self a")
  case None
  then show ?thesis using assms
    by (auto simp: get_forward_walk_ops_def Let_def coherent_def split: if_splits)
next
  case (Some r)
  then show ?thesis using assms by (auto simp: get_forward_walk_ops_def coherent_def)
qed

lemma on_chain_coherent:
  "coherent self \<Longrightarrow> on_chain src_op cands self = (self', r) \<Longrightarrow>
   r = filter (\<lambda>a. src_op \<in> set (ge_get_forward_walk_ops (the_graph self) a)) cands \<and>
   coherent self' \<and> self' = self\<lparr>ops_dict := ops_dict self'\<rparr>"
proof (induction cands arbitrary: self self' r)
  case Nil
  then show ?case by simp
next
  case (Cons a cands)
  obtain self1 w where w: "get_forward_walk_ops self a True = (self1, w)" by force
  obtain self2 r2 where r2: "on_chain src_op cands self1 = (self2, r2)" by force
  from get_forward_walk_ops_coherent [OF Cons.prems(1) w]
  have w1: "w = ge_get_forward_walk_ops (the_graph self) a" and c1: "coherent self1"
    and s1: "self1 = self\<lparr>ops_dict := ops_dict self1\<rparr>" by auto
  from Cons.IH [OF c1 r2]
  have e2: "r2 = filter (\<lambda>a. src_op \<in> set (ge_get_forward_walk_ops (the_graph self1) a)) cands"
    and c2: "coherent self2" and s2: "self2 = self1\<lparr>ops_dict := ops_dict self2\<rparr>" by auto
  have g1: "the_graph self1 = the_graph self" by (subst s1) simp
  have s: "self2 = self\<lparr>ops_dict := ops_dict self2\<rparr>" by (subst s2, subst s1) simp
  have res: "self' = self2" "r = (if src_op \<in> set w then a # r2 else r2)"
    using Cons.prems(2) w r2 by auto
  show ?case using res w1 e2 c2 s g1 by auto
qed

lemma search_ranks_spec:
  "coherent self \<Longrightarrow> search_ranks topo src_op range_lb i self = (self', res, ord) \<Longrightarrow>
   coherent self' \<and> self' = self\<lparr>ops_dict := ops_dict self'\<rparr> \<and>
   (if res = []
    then ord = - 1 \<and>
         (\<forall>j. range_lb \<le> j \<and> j \<le> i \<longrightarrow> trigger_candidates topo (the_graph self) src_op j = [])
    else range_lb \<le> ord \<and> ord \<le> i \<and>
         res = trigger_candidates topo (the_graph self) src_op ord \<and>
         (\<forall>j. ord < j \<and> j \<le> i \<longrightarrow> trigger_candidates topo (the_graph self) src_op j = []))"
proof (induction topo src_op range_lb i self arbitrary: self' res ord rule: search_ranks.induct)
  case (1 topo src_op range_lb i self)
  show ?case
  proof (cases "i < range_lb")
    case True
    then have "self' = self" "res = []" "ord = - 1"
      using "1.prems"(2) by (simp_all add: search_ranks.simps [of topo src_op range_lb i self])
    then show ?thesis using True "1.prems"(1) by auto
  next
    case False
    obtain self1 c1 where ch: "on_chain src_op (get_ops topo i) self = (self1, c1)" by force
    from on_chain_coherent [OF "1.prems"(1) ch]
    have c1: "c1 = filter (\<lambda>a. src_op \<in> set (ge_get_forward_walk_ops (the_graph self) a)) (get_ops topo i)"
      and co1: "coherent self1" and s1: "self1 = self\<lparr>ops_dict := ops_dict self1\<rparr>" by auto
    have g1: "the_graph self1 = the_graph self" by (subst s1) simp
    let ?cands = "filter (\<lambda>a. \<not> contains (op_name (the_graph self ! a)) ''/cond/'') c1"
    have tc: "?cands = trigger_candidates topo (the_graph self) src_op i"
      by (simp add: trigger_candidates_def c1)
    show ?thesis
    proof (cases "?cands = []")
      case False
      then have "self' = self1" "res = ?cands" "ord = i"
        using "1.prems"(2) \<open>\<not> i < range_lb\<close> ch
        by (simp_all add: search_ranks.simps [of topo src_op range_lb i self] Let_def)
      then show ?thesis using False tc co1 s1 \<open>\<not> i < range_lb\<close> by auto
    next
      case True
      then have rec: "search_ranks topo src_op range_lb (i - 1) self1 = (self', res, ord)"
        using "1.prems"(2) \<open>\<not> i < range_lb\<close> ch
        by (simp add: search_ranks.simps [of topo src_op range_lb i self] Let_def)
      have "coherent self' \<and> self' = self1\<lparr>ops_dict := ops_dict self'\<rparr> \<and>
        (if res = []
         then ord = - 1 \<and>
           (\<forall>j. range_lb \<le> j \<and> j \<le> i - 1 \<longrightarrow> trigger_candidates topo (the_graph self1) src_op j = [])
         else range_lb \<le> ord \<and> ord \<le> i - 1 \<and>
           res = trigger_candidates topo (the_graph self1) src_op ord \<and>
           (\<forall>j. ord < j \<and> j \<le> i - 1 \<longrightarrow> trigger_candidates topo (the_graph self1) src_op j = []))"
      proof -
        note IH = "1.IH" [OF \<open>\<not> i < range_lb\<close> refl refl, unfolded ch fst_conv snd_conv]
        have nn: "\<not> ?cands \<noteq> []" using True by simp
        show ?thesis by (rule IH [OF nn co1 rec])
      qed
      then have co: "coherent self'" and s': "self' = self1\<lparr>ops_dict := ops_dict self'\<rparr>"
        and r: "if res = []
         then ord = - 1 \<and>
           (\<forall>j. range_lb \<le> j \<and> j \<le> i - 1 \<longrightarrow> trigger_candidates topo (the_graph self) src_op j = [])
         else range_lb \<le> ord \<and> ord \<le> i - 1 \<and>
           res = trigger_candidates topo (the_graph self) src_op ord \<and>
           (\<forall>j. ord < j \<and> j \<le> i - 1 \<longrightarrow> trigger_candidates topo (the_graph self) src_op j = [])"
        using g1 by auto
      have s: "self' = self\<lparr>ops_dict := ops_dict self'\<rparr>" by (subst s', subst s1) simp
      have ti: "trigger_candidates topo (the_graph self) src_op i = []" using True tc by simp
      have step: "j \<le> i - 1 \<or> j = i" if "j \<le> i" for j :: int using that by auto
      show ?thesis
      proof (cases "res = []")
        case True
        then show ?thesis using co s r ti step by auto
      next
        case False
        then show ?thesis using co s r ti step by (auto split: if_splits)
      qed
    qed
  qed
qed


text \<open>
  Scheduling keeps the cache coherent: it only adds control edges, which the forward walk does
  not follow.
\<close>

lemma same_data_forward_step: "same_data g g' \<Longrightarrow> forward_step g' seen = forward_step g seen"
  by (simp add: forward_step_def same_data_get_consuming_ops same_data_op_outputs)

lemma same_data_forward_walk:
  "same_data g g' \<Longrightarrow> forward_walk g' seen = forward_walk g seen"
proof (induction g seen rule: forward_walk.induct)
  case (1 g seen)
  show ?case
  proof (cases "set (forward_step g seen) \<subseteq> set seen")
    case True
    then show ?thesis
      using same_data_forward_step [OF "1.prems", of seen]
      by (simp add: forward_walk.simps [of g seen] forward_walk.simps [of g' seen])
  next
    case False
    then show ?thesis
      using same_data_forward_step [OF "1.prems", of seen] "1.IH" [OF False "1.prems"]
      by (simp add: forward_walk.simps [of g seen] forward_walk.simps [of g' seen])
  qed
qed

lemma add_control_inputs_same_data:
  "add_control_inputs g op1 op2 = Inr (g', added) \<Longrightarrow> same_data g g'"
  by (auto simp: add_control_inputs_def same_data_refl split: if_splits sum.splits
      dest: ge_add_control_inputs_same_data)

lemma coherent_same_data:
  assumes "coherent self" and "same_data (the_graph self) g'"
  shows "coherent (log_info (self\<lparr>graph := Some g'\<rparr>) m l)"
proof -
  have "ge_get_forward_walk_ops g' a = ge_get_forward_walk_ops (the_graph self) a" for a
    using same_data_forward_walk [OF assms(2)] by (simp add: ge_get_forward_walk_ops_def)
  then show ?thesis using assms(1)
    by (simp add: coherent_def log_info_def the_graph_def)
qed

lemma add_control_dependency_coherent:
  assumes "coherent self"
    and "add_control_dependency topo self src_op dest_op swapin_op ahead = Inr self''"
  shows "coherent self''"
proof -
  from assms(2) obtain self' ctrld ord where
    d: "do_direct_order topo self src_op dest_op ahead = Inr (self', ctrld, ord)"
    by (auto simp: add_control_dependency_def split: sum.splits)
  then obtain fw sr where rk: "get_order topo src_op = Some fw" "get_order topo dest_op = Some sr"
    by (auto simp: do_direct_order_def split: option.splits)
  obtain s1 res o1 where
    sr: "search_ranks topo dest_op (fw + 1) (sr - ahead - 1) self = (s1, res, o1)"
    by (metis prod_cases3)
  have "s1 = self'" using d rk sr by (auto simp: do_direct_order_def Let_def split: list.splits)
  then have co: "coherent self'" using search_ranks_spec [OF assms(1) sr] by simp
  show ?thesis
  proof (cases ctrld)
    case None
    then have "self'' = log_info self' (No_control_dependency (op_name (the_graph self' ! src_op))) 1"
      using assms(2) d by (simp add: add_control_dependency_def)
    then show ?thesis using co by (simp add: coherent_def log_info_def the_graph_def)
  next
    case (Some c)
    then obtain g' added where
      a: "add_control_inputs (the_graph self') swapin_op c = Inr (g', added)"
      and s: "self'' = log_info (self'\<lparr>graph := Some g'\<rparr>)
                 (Control_dependency (op_name (g' ! c)) ord (op_name (g' ! dest_op))
                    (get_order topo dest_op)) 1"
      using assms(2) d by (auto simp: add_control_dependency_def split: sum.splits)
    show ?thesis
      unfolding s using co add_control_inputs_same_data [OF a] by (rule coherent_same_data)
  qed
qed

text \<open>
  Claim C7. Let the producer \<open>fw_op\<close> have rank \<open>fw\<close> and the anchor consumer
  \<open>src_op\<close> rank \<open>sr\<close>, and let the cache be coherent. \<open>_do_direct_order\<close> changes
  nothing but the cache. When it returns an operation, that operation is a candidate of a rank
  \<open>ord\<close> strictly between \<open>fw\<close> and \<open>sr - distance\<close>, and no higher rank of that window
  has a candidate. When it returns none, no rank of the window has a candidate, the rank it
  returns is \<open>-1\<close>, and \<open>_add_control_dependency\<close> returns normally, with the graph as it
  was and the message that no control dependency is needed handed to the logger at level 1. The
  candidates of a rank are the operations of that rank from which \<open>src_op\<close> is
  forward-reachable and whose name does not contain \<open>/cond/\<close>.
\<close>

theorem trigger_search:
  assumes "coherent self" and "get_order topo fw_op = Some fw" and "get_order topo src_op = Some sr"
  shows "\<exists>self' ctrld ord.
      do_direct_order topo self fw_op src_op distance = Inr (self', ctrld, ord) \<and>
      self' = self\<lparr>ops_dict := ops_dict self'\<rparr> \<and> coherent self' \<and>
      (case ctrld of
         Some ctrld_op \<Rightarrow>
           fw < ord \<and> ord < sr - distance \<and>
           ctrld_op \<in> set (trigger_candidates topo (the_graph self) src_op ord) \<and>
           (\<forall>j. ord < j \<and> j < sr - distance \<longrightarrow>
                  trigger_candidates topo (the_graph self) src_op j = [])
       | None \<Rightarrow>
           ord = - 1 \<and>
           (\<forall>j. fw < j \<and> j < sr - distance \<longrightarrow>
                  trigger_candidates topo (the_graph self) src_op j = []) \<and>
           add_control_dependency topo self fw_op src_op swapin_op distance
             = Inr (log_info self' (No_control_dependency (op_name (the_graph self ! fw_op))) 1)) \<and>
      (\<forall>i a. a \<in> set (trigger_candidates topo (the_graph self) src_op i) \<longleftrightarrow>
           a \<in> set (get_ops topo i) \<and> reaches (the_graph self) a src_op \<and>
           \<not> (\<exists>pre post. op_name (the_graph self ! a) = pre @ ''/cond/'' @ post))"
proof -
  let ?g = "the_graph self"
  obtain self' res ord where
    sr: "search_ranks topo src_op (fw + 1) (sr - distance - 1) self = (self', res, ord)"
    by (metis prod_cases3)
  from search_ranks_spec [OF assms(1) sr]
  have co: "coherent self'" and s': "self' = self\<lparr>ops_dict := ops_dict self'\<rparr>"
    and r: "if res = []
      then ord = - 1 \<and>
        (\<forall>j. fw + 1 \<le> j \<and> j \<le> sr - distance - 1 \<longrightarrow> trigger_candidates topo ?g src_op j = [])
      else fw + 1 \<le> ord \<and> ord \<le> sr - distance - 1 \<and>
        res = trigger_candidates topo ?g src_op ord \<and>
        (\<forall>j. ord < j \<and> j \<le> sr - distance - 1 \<longrightarrow> trigger_candidates topo ?g src_op j = [])"
    by auto
  have g': "the_graph self' = ?g" by (subst s') simp
  have cands: "\<forall>i a. a \<in> set (trigger_candidates topo ?g src_op i) \<longleftrightarrow>
           a \<in> set (get_ops topo i) \<and> reaches ?g a src_op \<and>
           \<not> (\<exists>pre post. op_name (?g ! a) = pre @ ''/cond/'' @ post)"
    by (auto simp: trigger_candidates_def ge_get_forward_walk_ops_reaches contains_substring)
  show ?thesis
  proof (cases res)
    case Nil
    have d: "do_direct_order topo self fw_op src_op distance = Inr (self', None, - 1)"
      using assms(2,3) sr Nil by (simp add: do_direct_order_def Let_def)
    have a: "add_control_dependency topo self fw_op src_op swapin_op distance
             = Inr (log_info self' (No_control_dependency (op_name (?g ! fw_op))) 1)"
      using d g' by (simp add: add_control_dependency_def)
    have w: "\<forall>j. fw < j \<and> j < sr - distance \<longrightarrow> trigger_candidates topo ?g src_op j = []"
      using r Nil by auto
    show ?thesis using d a w co s' cands by auto
  next
    case (Cons c rest)
    have d: "do_direct_order topo self fw_op src_op distance = Inr (self', Some c, ord)"
      using assms(2,3) sr Cons by (simp add: do_direct_order_def Let_def)
    have w: "fw < ord \<and> ord < sr - distance \<and> c \<in> set (trigger_candidates topo ?g src_op ord) \<and>
             (\<forall>j. ord < j \<and> j < sr - distance \<longrightarrow> trigger_candidates topo ?g src_op j = [])"
    proof -
      have ne: "res \<noteq> []" using Cons by simp
      have r': "fw + 1 \<le> ord \<and> ord \<le> sr - distance - 1 \<and>
        res = trigger_candidates topo ?g src_op ord \<and>
        (\<forall>j. ord < j \<and> j \<le> sr - distance - 1 \<longrightarrow> trigger_candidates topo ?g src_op j = [])"
        using r ne by simp
      have "c \<in> set res" using Cons by simp
      then show ?thesis using r' by auto
    qed
    show ?thesis using d w co s' cands by auto
  qed
qed

theorem trigger_search_witness:
  "coherent (blank (chain ''MatMul'') 3) \<and> get_order chain_topo 0 = Some 0 \<and>
   get_order chain_topo 7 = Some 7 \<and>
   (\<exists>self' ctrld ord.
      do_direct_order chain_topo (blank (chain ''MatMul'') 3) 0 7 3 = Inr (self', ctrld, ord) \<and>
      coherent self') \<and>
   map_sum id snd (do_direct_order chain_topo (blank (chain ''MatMul'') 3) 0 7 3) = Inr (Some 3, 3) \<and>
   map_sum id snd (do_direct_order chain_topo (blank (chain ''MatMul'') 3) 0 7 7) = Inr (None, - 1)"
proof -
  have h1: "coherent (blank (chain ''MatMul'') 3)" by (simp add: coherent_def blank_def)
  have h2: "get_order chain_topo 0 = Some 0" "get_order chain_topo 7 = Some 7"
    by (simp_all add: chain_topo_def)
  have e: "map_sum id snd (do_direct_order chain_topo (blank (chain ''MatMul'') 3) 0 7 3) = Inr (Some 3, 3)"
    "map_sum id snd (do_direct_order chain_topo (blank (chain ''MatMul'') 3) 0 7 7) = Inr (None, - 1)"
    by code_simp+
  have "\<exists>self' ctrld ord.
      do_direct_order chain_topo (blank (chain ''MatMul'') 3) 0 7 3 = Inr (self', ctrld, ord) \<and>
      coherent self'"
    using trigger_search [OF h1 h2, of 3] by blast
  then show ?thesis using h1 h2 e by blast
qed

section \<open>The synchronous modes\<close>
















text \<open>
  The chain after the traversal with threshold 3: the output of the first operation goes
  through the move-out operation 8 and the move-in operation 9 to the last operation.
\<close>

definition relocated_chain :: LMS where
  "relocated_chain =
     (blank
        [node ''n0'' ''MatMul'' [], node ''n1'' ''Relu'' [(0, 0)], node ''n2'' ''Relu'' [(1, 0)],
         node ''n3'' ''Relu'' [(2, 0)], node ''n4'' ''Relu'' [(3, 0)], node ''n5'' ''Relu'' [(4, 0)],
         node ''n6'' ''Relu'' [(5, 0)], node ''n7'' ''Add'' [(6, 0), (9, 0)],
         (node ''lms/swapout_n0_0'' ''Identity'' [(0, 0)])\<lparr>control_inputs := [0]\<rparr>,
         node ''lms/swapin_n0_0'' ''Identity'' [(8, 0)]] 3)
     \<lparr>excl_ops := {8, 9}, swapout_ops := {8}, swapin_ops := {9}, ops_triples := [(0, 7, 9)]\<rparr>"


lemma relocated_chain_is_traversal:
  "(case do_action chain_topo (blank (chain ''MatMul'') 3) (make_list_of_op (chain ''MatMul'')) of
      Some (Inr self) \<Rightarrow>
        the_graph self = the_graph relocated_chain \<and>
        ops_triples self = ops_triples relocated_chain \<and>
        excl_ops self = excl_ops relocated_chain \<and>
        swapout_ops self = swapout_ops relocated_chain \<and>
        swapin_ops self = swapin_ops relocated_chain
    | _ \<Rightarrow> False)"
  by code_simp











section \<open>Created operations are excluded\<close>

text \<open>
  Two objects have the same sets when their excluded, move-out and move-in sets agree. An
  object grows into another when these sets and the graph only get larger and every operation
  the graph has gained is a move-out or move-in operation in the excluded set.
\<close>

definition same_sets :: "LMS \<Rightarrow> LMS \<Rightarrow> bool" where
  "same_sets self self' \<longleftrightarrow>
     excl_ops self' = excl_ops self \<and> swapout_ops self' = swapout_ops self \<and>
     swapin_ops self' = swapin_ops self \<and> ops_dict self' = ops_dict self"

definition grows :: "LMS \<Rightarrow> LMS \<Rightarrow> bool" where
  "grows self self' \<longleftrightarrow>
     excl_ops self \<subseteq> excl_ops self' \<and> swapout_ops self \<subseteq> swapout_ops self' \<and>
     swapin_ops self \<subseteq> swapin_ops self' \<and> ops_dict self' = ops_dict self \<and>
     length (the_graph self) \<le> length (the_graph self') \<and>
     {length (the_graph self)..<length (the_graph self')}
       \<subseteq> excl_ops self' \<inter> (swapout_ops self' \<union> swapin_ops self')"

lemma grows_refl: "grows self self"
  by (simp add: grows_def)

lemma grows_trans:
  assumes a: "grows s1 s2" and b: "grows s2 s3"
  shows "grows s1 s3"
proof -
  have "x \<in> excl_ops s3 \<inter> (swapout_ops s3 \<union> swapin_ops s3)"
    if "x \<in> {length (the_graph s1)..<length (the_graph s3)}" for x
  proof (cases "x < length (the_graph s2)")
    case True
    then have "x \<in> excl_ops s2 \<inter> (swapout_ops s2 \<union> swapin_ops s2)"
      using a that by (auto simp: grows_def)
    then show ?thesis using b by (auto simp: grows_def)
  next
    case False
    then have "x \<in> {length (the_graph s2)..<length (the_graph s3)}" using that by auto
    then show ?thesis using b unfolding grows_def by blast
  qed
  then have "{length (the_graph s1)..<length (the_graph s3)}
               \<subseteq> excl_ops s3 \<inter> (swapout_ops s3 \<union> swapin_ops s3)" by blast
  moreover have "excl_ops s1 \<subseteq> excl_ops s3" "swapout_ops s1 \<subseteq> swapout_ops s3"
    "swapin_ops s1 \<subseteq> swapin_ops s3" "length (the_graph s1) \<le> length (the_graph s3)"
    "ops_dict s3 = ops_dict s1"
    using a b by (auto simp: grows_def)
  ultimately show ?thesis unfolding grows_def by blast
qed

lemma same_sets_log_info [simp]: "same_sets self (log_info self' m l) = same_sets self self'"
  by (simp add: same_sets_def log_info_def)

lemma the_graph_graph [simp]: "the_graph (self\<lparr>graph := Some g\<rparr>) = g"
  by (simp add: the_graph_def)

lemma same_sets_graph [simp]: "same_sets self (self'\<lparr>graph := x\<rparr>) = same_sets self self'"
  by (simp add: same_sets_def)

lemma same_sets_log_info_left [simp]: "same_sets (log_info self m l) self' = same_sets self self'"
  by (simp add: same_sets_def log_info_def)

lemma same_sets_graph_left [simp]: "same_sets (self\<lparr>graph := x\<rparr>) self' = same_sets self self'"
  by (simp add: same_sets_def)

lemma same_sets_refl [simp]: "same_sets self self"
  by (simp add: same_sets_def)

lemma same_sets_trans: "same_sets s1 s2 \<Longrightarrow> same_sets s2 s3 \<Longrightarrow> same_sets s1 s3"
  by (simp add: same_sets_def)

lemma length_fold_reroute: "length (fold (reroute a) ps g) = length g"
  by (induction ps arbitrary: g) (auto simp: reroute_def)

lemma length_connect_ops:
  "connect_ops g src_op dest_op ri ro idx = Inr g' \<Longrightarrow> length g' = length g"
  by (auto simp: connect_ops_def ge_connect_def length_fold_reroute split: sum.splits if_splits)

lemma length_add_control_inputs:
  "add_control_inputs g op1 op2 = Inr (g', added) \<Longrightarrow> length g' = length g"
  by (auto simp: add_control_inputs_def ge_add_control_inputs_def split: if_splits)

lemma add_swapout_new:
  "add_swapout self src_op ts0 = Inr (self', so) \<Longrightarrow>
   so = length (the_graph self) \<and> length (the_graph self') = Suc (length (the_graph self)) \<and>
   same_sets self self'"
  by (auto simp: add_swapout_def identity_def Let_def split: sum.splits dest!: length_connect_ops)

lemma connect_dests_same:
  "connect_dests topo swap_in ts0 dest_ops self = Inr self' \<Longrightarrow>
   length (the_graph self') = length (the_graph self) \<and> same_sets self self'"
proof (induction dest_ops arbitrary: self)
  case Nil
  then show ?case by simp
next
  case (Cons d dest_ops)
  from Cons.prems obtain idx g' where
    c: "connect_ops (the_graph self) swap_in d True False idx = Inr g'"
    and r: "connect_dests topo swap_in ts0 dest_ops
              (log_info (self\<lparr>graph := Some g'\<rparr>)
                 (Swap_in (tensor_name g' ts0) (ndims g' ts0) (op_name (g' ! d))
                    (get_order topo d)) 1) = Inr self'"
    by (auto split: sum.splits)
  from Cons.IH [OF r] length_connect_ops [OF c] show ?case by simp
qed

lemma add_swapin_new:
  "add_swapin topo self swapout_op dest_ops ts0 = Inr (self', si) \<Longrightarrow>
   si = length (the_graph self) \<and> length (the_graph self') = Suc (length (the_graph self)) \<and>
   same_sets self self'"
  by (auto simp: add_swapin_def identity_def Let_def split: sum.splits
      dest!: length_connect_ops connect_dests_same)

lemma add_swapins_new:
  "add_swapins topo swapout_op ts targets self dest_sin = Inr (self', dest_sin') \<Longrightarrow>
   same_sets self self' \<and> length (the_graph self) \<le> length (the_graph self') \<and>
   snd ` set dest_sin' = snd ` set dest_sin \<union> {length (the_graph self)..<length (the_graph self')}"
proof (induction targets arbitrary: self dest_sin)
  case Nil
  then show ?case by auto
next
  case (Cons dest_ops targets)
  from Cons.prems obtain self1 si dest_op where
    a: "add_swapin topo self swapout_op dest_ops ts = Inr (self1, si)"
    and r: "add_swapins topo swapout_op ts targets self1
              (if (dest_op, si) \<in> set dest_sin then dest_sin else dest_sin @ [(dest_op, si)])
            = Inr (self', dest_sin')"
    by (auto split: sum.splits)
  from add_swapin_new [OF a] have si: "si = length (the_graph self)"
    and l1: "length (the_graph self1) = Suc (length (the_graph self))"
    and s1: "same_sets self self1" by auto
  from Cons.IH [OF r] have s2: "same_sets self1 self'"
    and l2: "length (the_graph self1) \<le> length (the_graph self')"
    and d: "snd ` set dest_sin' =
            snd ` set (if (dest_op, si) \<in> set dest_sin then dest_sin else dest_sin @ [(dest_op, si)])
              \<union> {length (the_graph self1)..<length (the_graph self')}" by auto
  have "snd ` set (if (dest_op, si) \<in> set dest_sin then dest_sin else dest_sin @ [(dest_op, si)])
          = snd ` set dest_sin \<union> {si}" by force
  then have "snd ` set dest_sin' =
      snd ` set dest_sin \<union> {length (the_graph self)..<length (the_graph self')}"
    using d si l1 l2 by auto
  then show ?case using same_sets_trans [OF s1 s2] l1 l2 by simp
qed

lemma insert_swap_nodes_for_ts_new:
  assumes "insert_swap_nodes_for_ts topo self src_op ts targets = Inr (self', so, dest_sin)"
  shows "same_sets self self' \<and> so = length (the_graph self) \<and>
         length (the_graph self) < length (the_graph self') \<and>
         insert so (snd ` set dest_sin) = {length (the_graph self)..<length (the_graph self')}"
proof -
  from assms obtain self1 g2 added where
    a: "add_swapout self src_op ts = Inr (self1, so)"
    and c: "add_control_inputs (the_graph self1) so src_op = Inr (g2, added)"
    and r: "add_swapins topo so ts targets (self1\<lparr>graph := Some g2\<rparr>) [] = Inr (self', dest_sin)"
    by (auto simp: insert_swap_nodes_for_ts_def split: sum.splits)
  from add_swapout_new [OF a] have so: "so = length (the_graph self)"
    and l1: "length (the_graph self1) = Suc (length (the_graph self))"
    and s1: "same_sets self self1" by auto
  have l2: "length g2 = Suc (length (the_graph self))"
    using length_add_control_inputs [OF c] l1 by simp
  from add_swapins_new [OF r] have s2: "same_sets (self1\<lparr>graph := Some g2\<rparr>) self'"
    and l3: "length g2 \<le> length (the_graph self')"
    and d: "snd ` set dest_sin = {length g2..<length (the_graph self')}" by auto
  have "same_sets self self'" using s1 s2 by (simp add: same_sets_def)
  moreover have "insert so (snd ` set dest_sin) = {length (the_graph self)..<length (the_graph self')}"
    using d so l2 l3 by auto
  ultimately show ?thesis using so l2 l3 by simp
qed

lemma keep_swapins_sets:
  "the_graph (keep_swapins src_op dest_sin self) = the_graph self \<and>
   excl_ops (keep_swapins src_op dest_sin self) = excl_ops self \<union> snd ` set dest_sin \<and>
   swapin_ops (keep_swapins src_op dest_sin self) = swapin_ops self \<union> snd ` set dest_sin \<and>
   swapout_ops (keep_swapins src_op dest_sin self) = swapout_ops self \<and>
   ops_dict (keep_swapins src_op dest_sin self) = ops_dict self"
  by (induction src_op dest_sin self rule: keep_swapins.induct) (auto simp: the_graph_def)

lemma insert_for_dests_grows:
  "insert_for_dests topo src_op ts_dests self = Inr self' \<Longrightarrow> grows self self'"
proof (induction ts_dests arbitrary: self)
  case Nil
  then show ?case by (simp add: grows_refl)
next
  case (Cons p ts_dests)
  obtain ts cands where p: "p = (ts, cands)" by (cases p)
  from Cons.prems obtain dests_grp self1 so dest_sin where
    i: "insert_swap_nodes_for_ts topo self src_op ts dests_grp = Inr (self1, so, dest_sin)"
    and r: "insert_for_dests topo src_op ts_dests
              (keep_swapins src_op dest_sin
                 (self1\<lparr>swapout_ops := insert so (swapout_ops self1),
                         excl_ops := insert so (excl_ops self1)\<rparr>)) = Inr self'"
    by (auto simp: p split: sum.splits)
  let ?s2 = "keep_swapins src_op dest_sin
                 (self1\<lparr>swapout_ops := insert so (swapout_ops self1),
                         excl_ops := insert so (excl_ops self1)\<rparr>)"
  note n = insert_swap_nodes_for_ts_new [OF i]
  note k = keep_swapins_sets [of src_op dest_sin
      "self1\<lparr>swapout_ops := insert so (swapout_ops self1), excl_ops := insert so (excl_ops self1)\<rparr>"]
  have g2: "the_graph ?s2 = the_graph self1" using k by (simp add: the_graph_def)
  have "grows self ?s2"
    unfolding grows_def g2 using n k by (auto simp: same_sets_def)
  then show ?case using Cons.IH [OF r] grows_trans by blast
qed

lemma grows_log_info: "grows self (log_info self m l)"
  by (simp add: grows_def log_info_def the_graph_def)

lemma insert_swap_nodes_grows:
  "insert_swap_nodes topo self src_op = Inr self' \<Longrightarrow> grows self self'"
  by (auto simp: insert_swap_nodes_def Let_def split: sum.splits if_splits
      intro: grows_log_info grows_trans [OF grows_log_info]
             grows_trans [OF grows_log_info insert_for_dests_grows])

lemma visit_grows: "visit topo self src_op = Inr self' \<Longrightarrow> grows self self'"
  by (auto simp: visit_def grows_refl split: if_splits dest: insert_swap_nodes_grows)


text \<open>
  The states of the loop of \<open>_do_action\<close>, each made of the queue, the closed set and the
  object: the state it starts in, and the state after one more iteration that raises nothing.
\<close>

inductive traversal :: "TOPOS \<Rightarrow> op list \<times> op set \<times> LMS \<Rightarrow> op list \<times> op set \<times> LMS \<Rightarrow> bool"
  for topo :: TOPOS and start :: "op list \<times> op set \<times> LMS" where
    at_start: "traversal topo start start"
  | iteration:
      "traversal topo start (src_op # queue, closed_set, self) \<Longrightarrow>
       visit topo self src_op = Inr self' \<Longrightarrow>
       traversal topo start
         (put_next closed_set (fanouts (the_graph self) src_op) queue, insert src_op closed_set, self')"

lemma traversal_grows:
  "traversal topo start st \<Longrightarrow> grows (snd (snd start)) (snd (snd st))"
proof (induction rule: traversal.induct)
  case at_start
  then show ?case by (simp add: grows_refl)
next
  case (iteration src_op queue closed_set self self')
  then show ?case using visit_grows grows_trans by fastforce
qed

lemma traversal_step_back:
  "traversal topo st2 st3 \<Longrightarrow>
   st2 = (put_next closed_set (fanouts (the_graph self) src_op) queue, insert src_op closed_set, self') \<Longrightarrow>
   visit topo self src_op = Inr self' \<Longrightarrow>
   traversal topo (src_op # queue, closed_set, self) st3"
proof (induction rule: traversal.induct)
  case at_start
  show ?case
    unfolding at_start(1)
    by (rule traversal.iteration [OF traversal.at_start at_start(2)])
next
  case (iteration src_op' queue' closed_set' self1 self1')
  show ?case
    by (rule traversal.iteration [OF iteration.IH [OF iteration.prems] iteration.hyps(2)])
qed

lemma do_action_loop_traversal:
  assumes "do_action_loop topo open_set closed_set self = Some r"
  shows "\<forall>self'. r = Inr self' \<longrightarrow>
           (\<exists>closed_set'. traversal topo (open_set, closed_set, self) ([], closed_set', self'))"
proof (rule do_action_loop.raw_induct
    [where P = "\<lambda>tp os cs s r. \<forall>self'. r = Inr self' \<longrightarrow>
                  (\<exists>closed_set'. traversal tp (os, cs, s) ([], closed_set', self'))",
     OF _ assms])
  fix loop tp os cs s r
  assume IH: "\<And>tp os cs s r. loop tp os cs s = Some r \<Longrightarrow>
                \<forall>self'. r = Inr self' \<longrightarrow>
                  (\<exists>closed_set'. traversal tp (os, cs, s) ([], closed_set', self'))"
    and body: "(case os of
                  [] \<Rightarrow> Some (Inr s)
                | src_op # queue \<Rightarrow>
                    (case visit tp s src_op of
                       Inl e \<Rightarrow> Some (Inl e)
                     | Inr self' \<Rightarrow>
                         loop tp (put_next cs (fanouts (the_graph s) src_op) queue)
                           (insert src_op cs) self')) = Some r"
  show "\<forall>self'. r = Inr self' \<longrightarrow>
          (\<exists>closed_set'. traversal tp (os, cs, s) ([], closed_set', self'))"
  proof (intro allI impI)
    fix self' assume r: "r = Inr self'"
    show "\<exists>closed_set'. traversal tp (os, cs, s) ([], closed_set', self')"
    proof (cases os)
      case Nil
      then have "self' = s" using body r by simp
      then show ?thesis using Nil traversal.at_start by blast
    next
      case (Cons src_op queue)
      then obtain self1 where v: "visit tp s src_op = Inr self1"
        and l: "loop tp (put_next cs (fanouts (the_graph s) src_op) queue)
                  (insert src_op cs) self1 = Some (Inr self')"
        using body r by (auto split: sum.splits)
      from IH [OF l] obtain closed_set' where
        "traversal tp (put_next cs (fanouts (the_graph s) src_op) queue,
                       insert src_op cs, self1) ([], closed_set', self')" by blast
      from traversal_step_back [OF this refl v] show ?thesis using Cons by blast
    qed
  qed
qed

text \<open>
  The traversal does not touch the cache: when it starts with an empty cache, as a run of a
  new object does, the scheduling that follows starts with a coherent one.
\<close>

lemma traversal_coherent:
  assumes "traversal topo (open0, closed0, self0) (open_set, closed_set, self)"
    and "ops_dict self0 = Map.empty"
  shows "coherent self"
  using traversal_grows [OF assms(1)] assms(2) by (simp add: grows_def coherent_def)

text \<open>
  Claim C8. In every state that the traversal reaches from its start, the excluded set holds
  all that it held at the start, and every operation created since the start is a recorded
  move-out or move-in operation, is in the excluded set, and is passed over without any effect
  when the traversal visits it. One more visit adds every operation it creates to the excluded
  set and removes nothing from it. The states of \<open>_do_action\<close> are these states.
\<close>

theorem created_nodes_stay_excluded:
  assumes "traversal topo (open0, closed0, self0) (open_set, closed_set, self)"
  shows "excl_ops self0 \<subseteq> excl_ops self \<and>
         length (the_graph self0) \<le> length (the_graph self) \<and>
         (\<forall>a. length (the_graph self0) \<le> a \<and> a < length (the_graph self) \<longrightarrow>
              a \<in> swapout_ops self \<union> swapin_ops self \<and> a \<in> excl_ops self \<and>
              visit topo self a = Inr self) \<and>
         (\<forall>src_op self'. visit topo self src_op = Inr self' \<longrightarrow>
              excl_ops self \<subseteq> excl_ops self' \<and>
              (\<forall>a. length (the_graph self) \<le> a \<and> a < length (the_graph self') \<longrightarrow>
                   a \<in> swapout_ops self' \<union> swapin_ops self' \<and> a \<in> excl_ops self')) \<and>
         (\<forall>src_ops self'. do_action topo self0 src_ops = Some (Inr self') \<longrightarrow>
              (\<exists>closed_set'. traversal topo (src_ops, {}, self0) ([], closed_set', self')))"
proof -
  have g: "grows self0 self" using traversal_grows [OF assms] by simp
  have "visit topo self a = Inr self" if "a \<in> excl_ops self" for a
    using that by (simp add: visit_def)
  moreover have "excl_ops self \<subseteq> excl_ops self' \<and>
      (\<forall>a. length (the_graph self) \<le> a \<and> a < length (the_graph self') \<longrightarrow>
           a \<in> swapout_ops self' \<union> swapin_ops self' \<and> a \<in> excl_ops self')"
    if "visit topo self src_op = Inr self'" for src_op self'
    using visit_grows [OF that] by (auto simp: grows_def)
  moreover have "\<exists>closed_set'. traversal topo (src_ops, {}, self0) ([], closed_set', self')"
    if "do_action topo self0 src_ops = Some (Inr self')" for src_ops self'
    using do_action_loop_traversal [of topo src_ops "{}" self0 "Inr self'"] that
    by (simp add: do_action_def)
  ultimately show ?thesis using g by (auto simp: grows_def)
qed

theorem created_nodes_stay_excluded_witness:
  "\<exists>self. traversal chain_topo
             (make_list_of_op (chain ''MatMul''), {}, blank (chain ''MatMul'') 3)
             (put_next {} (fanouts (the_graph (blank (chain ''MatMul'') 3)) 0) [1, 2, 3, 4, 5, 6, 7],
              insert 0 {}, self) \<and>
          length (the_graph self) = 10 \<and> 8 \<in> excl_ops self \<and> 9 \<in> excl_ops self \<and>
          visit chain_topo self 8 = Inr self \<and> visit chain_topo self 9 = Inr self"
proof -
  let ?s0 = "blank (chain ''MatMul'') 3"
  have e: "map_sum id (\<lambda>s. length (the_graph s)) (visit chain_topo ?s0 0) = Inr 10"
    "length (the_graph ?s0) = 8" "make_list_of_op (chain ''MatMul'') = [0, 1, 2, 3, 4, 5, 6, 7]"
    by code_simp+
  then obtain self where v: "visit chain_topo ?s0 0 = Inr self" and l: "length (the_graph self) = 10"
    by (cases "visit chain_topo ?s0 0") auto
  have t: "traversal chain_topo ([0, 1, 2, 3, 4, 5, 6, 7], {}, ?s0)
             (put_next {} (fanouts (the_graph ?s0) 0) [1, 2, 3, 4, 5, 6, 7], insert 0 {}, self)"
    by (rule traversal.iteration [OF traversal.at_start v])
  from created_nodes_stay_excluded [OF t]
  have "\<forall>a. length (the_graph ?s0) \<le> a \<and> a < length (the_graph self) \<longrightarrow>
              a \<in> swapout_ops self \<union> swapin_ops self \<and> a \<in> excl_ops self \<and>
              visit chain_topo self a = Inr self" by blast
  then have "8 \<in> excl_ops self \<and> 9 \<in> excl_ops self \<and>
             visit chain_topo self 8 = Inr self \<and> visit chain_topo self 9 = Inr self"
    using e(2) l by simp
  then show ?thesis using t l e(3) by auto
qed

end
